theory Spec2Isabelle
  imports
    Main
    "HOL-Library.Word"
    "HOL-Library.Multiset"
    "HOL-Library.Char_ord"
    "HOL-Library.List_Lexorder"
begin

section \<open>Members of compound and enumeration datatypes (H5Tfields.c)\<close>

text \<open>
  A shallow embedding of \<^verbatim>\<open>src/extlibs/hdf5/H5Tfields.c\<close>: the member queries
  \<^verbatim>\<open>H5T_get_nmembers\<close>, \<^verbatim>\<open>H5T_get_member_name\<close>, \<^verbatim>\<open>H5Tget_member_index\<close> and the
  two bubble sorts \<^verbatim>\<open>H5T_sort_value\<close> and \<^verbatim>\<open>H5T_sort_name\<close>.

  C arrays are lists, C \<^verbatim>\<open>int\<close> indices and counts are \<open>int\<close> (no arithmetic in the
  file can overflow on a count that fits the array it counts), \<^verbatim>\<open>size_t\<close> offsets and
  sizes are \<open>nat\<close> (they are only compared, or multiplied to address a buffer that
  exists), bytes are \<open>8 word\<close>. The function entry and exit macros
  (\<^verbatim>\<open>FUNC_ENTER_*\<close>, which initialise the interface once, and \<^verbatim>\<open>FUNC_LEAVE_*\<close>) are
  taken to succeed; \<^verbatim>\<open>HGOTO_ERROR\<close> is the error value it records together with the
  value it returns.
\<close>

subsection \<open>Data\<close>

type_synonym uint8_t = "8 word"
type_synonym herr_t = int
type_synonym hid_t = int

definition SUCCEED :: herr_t where
  "SUCCEED = 0"

definition FAIL :: int where
  "FAIL = - 1"

datatype H5T_sort_t = H5T_SORT_NONE | H5T_SORT_NAME | H5T_SORT_VALUE

text \<open>
  \<^verbatim>\<open>H5T_cmemb_t\<close>: one member of a compound type. The file reads the fields \<^verbatim>\<open>name\<close> and
  \<^verbatim>\<open>offset\<close>; a member is moved by whole-struct assignment only.
\<close>

record H5T_cmemb_t =
  name :: string
  offset :: nat

text \<open>
  \<^verbatim>\<open>dt->u.compnd\<close>: \<^verbatim>\<open>memb\<close> is the array of members, \<^verbatim>\<open>nmembs\<close> the number of them in
  use. \<^verbatim>\<open>dt->u.enumer\<close>: \<^verbatim>\<open>name\<close> is an array of \<^verbatim>\<open>nmembs\<close> strings and \<^verbatim>\<open>value\<close> one
  flat byte buffer holding \<^verbatim>\<open>nmembs\<close> values of \<^verbatim>\<open>dt->size\<close> bytes each.
\<close>

record H5T_compnd_t =
  compnd_nmembs :: int
  compnd_sorted :: H5T_sort_t
  memb :: "H5T_cmemb_t list"

record H5T_enum_t =
  enumer_nmembs :: int
  enumer_sorted :: H5T_sort_t
  enumer_value :: "uint8_t list"
  enumer_name :: "string list"

text \<open>
  The union \<^verbatim>\<open>dt->u\<close> together with its tag \<^verbatim>\<open>dt->type\<close>: \<open>Compnd\<close> is
  \<^verbatim>\<open>H5T_COMPOUND\<close>, \<open>Enumer\<close> is \<^verbatim>\<open>H5T_ENUM\<close>, \<open>Other_class\<close> stands for every other
  type class (integer, float, string, ...), of which the file reads nothing.
\<close>

datatype H5T_u = Compnd H5T_compnd_t | Enumer H5T_enum_t | Other_class

record H5T_t =
  dt_size :: nat
  u :: H5T_u

text \<open>The errors \<^verbatim>\<open>HGOTO_ERROR\<close> records: major number, minor number, message.\<close>

datatype H5E_major = H5E_ARGS
datatype H5E_minor = H5E_BADTYPE | H5E_BADVALUE
type_synonym H5E_error = "H5E_major \<times> H5E_minor \<times> string"

subsection \<open>C strings\<close>

text \<open>
  A \<open>string\<close> is the byte buffer a \<^verbatim>\<open>char *\<close> points to, with the terminating NUL
  implicit at its end. The C string it holds stops at the first NUL byte, should the
  buffer hold one.
\<close>

definition c_str :: "string \<Rightarrow> string" where
  "c_str s = takeWhile (\<lambda>c. c \<noteq> CHR 0x00) s"

text \<open>
  Modelled from the spec: \<^verbatim>\<open>HDstrcmp\<close> is the macro for \<^verbatim>\<open>strcmp\<close>, declared in
  H5private.h, which is not among the sources; names are equal "exactly (byte-for-byte)"
  and ordered "lexicographically". The result is the difference of the first pair of
  bytes that differ, read as \<^verbatim>\<open>unsigned char\<close>; the comparison ends at a NUL.
\<close>

fun HDstrcmp :: "string \<Rightarrow> string \<Rightarrow> int" where
  "HDstrcmp [] [] = 0"
| "HDstrcmp [] (y # ys) = 0 - of_char y"
| "HDstrcmp (x # xs) [] = of_char x - 0"
| "HDstrcmp (x # xs) (y # ys) =
     (if x \<noteq> y then of_char x - of_char y
      else if x = CHR 0x00 then 0
      else HDstrcmp xs ys)"

text \<open>
  Modelled from the spec: \<^verbatim>\<open>H5MM_xstrdup\<close> is defined in H5MM.c, which is not among the
  sources; \<open>memberName\<close> "returns a freshly-allocated copy of the name". The copy of a C
  string is its bytes up to the terminating NUL.
\<close>

definition H5MM_xstrdup :: "string \<Rightarrow> string" where
  "H5MM_xstrdup s = c_str s"

subsection \<open>Member queries\<close>

definition H5T_get_nmembers :: "H5T_t \<Rightarrow> H5E_error + int" where
  "H5T_get_nmembers dt =
     (case u dt of
        Compnd c \<Rightarrow> Inr (compnd_nmembs c)
      | Enumer e \<Rightarrow> Inr (enumer_nmembs e)
      | Other_class \<Rightarrow>
          Inl (H5E_ARGS, H5E_BADTYPE, ''operation not supported for type class''))"

text \<open>\<open>Inl\<close> is the \<^verbatim>\<open>NULL\<close> return with the error recorded; \<open>Inr\<close> the copied name.\<close>

definition H5T_get_member_name :: "H5T_t \<Rightarrow> int \<Rightarrow> H5E_error + string" where
  "H5T_get_member_name dt membno =
     (case u dt of
        Compnd c \<Rightarrow>
          if membno < 0 \<or> membno \<ge> compnd_nmembs c
          then Inl (H5E_ARGS, H5E_BADVALUE, ''invalid member number'')
          else Inr (H5MM_xstrdup (name (memb c ! nat membno)))
      | Enumer e \<Rightarrow>
          if membno < 0 \<or> membno \<ge> enumer_nmembs e
          then Inl (H5E_ARGS, H5E_BADVALUE, ''invalid member number'')
          else Inr (H5MM_xstrdup (enumer_name e ! nat membno))
      | Other_class \<Rightarrow>
          Inl (H5E_ARGS, H5E_BADTYPE, ''operation not supported for type class''))"

text \<open>
  The two scanning loops of \<^verbatim>\<open>H5Tget_member_index\<close>: \<open>Some i\<close> is \<^verbatim>\<open>HGOTO_DONE(i)\<close>,
  \<open>None\<close> is the loop running to its end.
\<close>

function index_loop_compnd :: "H5T_cmemb_t list \<Rightarrow> string \<Rightarrow> int \<Rightarrow> int \<Rightarrow> int option" where
  "index_loop_compnd membs nm nmembs i =
     (if i < nmembs then
        (if HDstrcmp (name (membs ! nat i)) nm = 0 then Some i
         else index_loop_compnd membs nm nmembs (i + 1))
      else None)"
  by pat_completeness auto
termination
  by (relation "measure (\<lambda>(membs, nm, nmembs, i). nat (nmembs - i))") auto

function index_loop_enum :: "string list \<Rightarrow> string \<Rightarrow> int \<Rightarrow> int \<Rightarrow> int option" where
  "index_loop_enum names nm nmembs i =
     (if i < nmembs then
        (if HDstrcmp (names ! nat i) nm = 0 then Some i
         else index_loop_enum names nm nmembs (i + 1))
      else None)"
  by pat_completeness auto
termination
  by (relation "measure (\<lambda>(names, nm, nmembs, i). nat (nmembs - i))") auto

declare index_loop_compnd.simps [simp del]
declare index_loop_enum.simps [simp del]

text \<open>
  \<^verbatim>\<open>H5Tget_member_index\<close> takes a type identifier and resolves it with
  \<^verbatim>\<open>H5I_object_verify\<close>, which is not among the sources: the resolution is the parameter
  \<open>verify\<close> (\<open>None\<close> is \<^verbatim>\<open>NULL\<close>). The result is the returned \<^verbatim>\<open>int\<close> and the error
  recorded, if any: a name that is not found returns \<^verbatim>\<open>FAIL\<close> and records nothing.
\<close>

definition H5Tget_member_index ::
    "(hid_t \<Rightarrow> H5T_t option) \<Rightarrow> hid_t \<Rightarrow> string \<Rightarrow> int \<times> H5E_error option" where
  "H5Tget_member_index verify type_id nm =
     (case verify type_id of
        None \<Rightarrow> (FAIL, Some (H5E_ARGS, H5E_BADTYPE, ''not a data type''))
      | Some dt \<Rightarrow>
          (case u dt of
             Compnd c \<Rightarrow>
               (case index_loop_compnd (memb c) nm (compnd_nmembs c) 0 of
                  Some i \<Rightarrow> (i, None)
                | None \<Rightarrow> (FAIL, None))
           | Enumer e \<Rightarrow>
               (case index_loop_enum (enumer_name e) nm (enumer_nmembs e) 0 of
                  Some i \<Rightarrow> (i, None)
                | None \<Rightarrow> (FAIL, None))
           | Other_class \<Rightarrow>
               (FAIL, Some (H5E_ARGS, H5E_BADTYPE, ''operation not supported for this type''))))"

subsection \<open>Library routines the sorts call\<close>

text \<open>
  Modelled from the spec: \<^verbatim>\<open>HDmemcmp\<close> is the macro for \<^verbatim>\<open>memcmp\<close>, declared in
  H5private.h, which is not among the sources: "compare the fixed-width raw byte
  sequences byte-by-byte from the first byte, unsigned, in storage order; the first
  differing byte determines the result". The two lists are the buffers from the two
  pointers on; the last equation is the count reaching 0 (a buffer shorter than the
  count is excluded by the preconditions below).
\<close>

fun HDmemcmp :: "uint8_t list \<Rightarrow> uint8_t list \<Rightarrow> nat \<Rightarrow> int" where
  "HDmemcmp (x # xs) (y # ys) (Suc n) =
     (if x \<noteq> y then uint x - uint y else HDmemcmp xs ys n)"
| "HDmemcmp _ _ _ = 0"

text \<open>
  \<^verbatim>\<open>HDmemcpy(dst + d, src + s, n)\<close>: the buffer \<open>dst\<close> after the copy of \<open>n\<close> bytes. The
  equation is the C function where the copy stays inside both buffers, \<open>s + n\<close> within
  \<open>src\<close> and \<open>d + n\<close> within \<open>dst\<close>, which the preconditions below (\<open>H5T_ok\<close>) give for
  every copy the sorts make. Outside them the C code overruns a buffer (\<open>tbuf\<close>, when
  \<open>size\<close> exceeds 32 and the assertion is compiled out) and has no defined result,
  which the list does not model: nothing is stated of the sorts there.
\<close>

definition HDmemcpy :: "uint8_t list \<Rightarrow> nat \<Rightarrow> uint8_t list \<Rightarrow> nat \<Rightarrow> nat \<Rightarrow> uint8_t list" where
  "HDmemcpy dst d src s n = take d dst @ take n (drop s src) @ drop (d + n) dst"

text \<open>
  \<^verbatim>\<open>uint8_t tbuf[32]\<close>, a local array: its first contents are indeterminate and never
  read, since every swap fills the bytes it then copies back.
\<close>

definition tbuf_init :: "uint8_t list" where
  "tbuf_init = replicate 32 0"

subsection \<open>The swaps\<close>

text \<open>\<^verbatim>\<open>tmp = memb[j]; memb[j] = memb[j+1]; memb[j+1] = tmp;\<close>\<close>

definition swap_memb :: "H5T_cmemb_t list \<Rightarrow> int \<Rightarrow> H5T_cmemb_t list" where
  "swap_memb membs j =
     (let tmp = membs ! nat j;
          membs1 = membs[nat j := membs ! nat (j + 1)]
      in membs1[nat (j + 1) := tmp])"

text \<open>\<^verbatim>\<open>if (map) { x = map[j]; map[j] = map[j+1]; map[j+1] = x; }\<close>\<close>

definition swap_map :: "int list option \<Rightarrow> int \<Rightarrow> int list option" where
  "swap_map map_arr j =
     (case map_arr of
        None \<Rightarrow> None
      | Some m \<Rightarrow>
          (let x = m ! nat j;
               m1 = m[nat j := m ! nat (j + 1)]
           in Some (m1[nat (j + 1) := x])))"

text \<open>\<^verbatim>\<open>tmp = name[j]; name[j] = name[j+1]; name[j+1] = tmp;\<close>\<close>

definition swap_name :: "string list \<Rightarrow> int \<Rightarrow> string list" where
  "swap_name names j =
     (let tmp = names ! nat j;
          names1 = names[nat j := names ! nat (j + 1)]
      in names1[nat (j + 1) := tmp])"

text \<open>
  The three \<^verbatim>\<open>HDmemcpy\<close> calls that exchange the values \<open>j\<close> and \<open>j+1\<close> through \<open>tbuf\<close>;
  the result is \<open>tbuf\<close> and the value buffer afterwards.
\<close>

definition swap_value ::
    "nat \<Rightarrow> uint8_t list \<Rightarrow> uint8_t list \<Rightarrow> int \<Rightarrow> uint8_t list \<times> uint8_t list" where
  "swap_value sz tbuf val j =
     (let tbuf1 = HDmemcpy tbuf 0 val (nat j * sz) sz;
          val1 = HDmemcpy val (nat j * sz) val (nat (j + 1) * sz) sz;
          val2 = HDmemcpy val1 (nat (j + 1) * sz) tbuf1 0 sz
      in (tbuf1, val2))"

subsection \<open>The loops of \<^verbatim>\<open>H5T_sort_value\<close>\<close>

text \<open>
  Each bubble sort is an inner loop over \<open>j\<close> and an outer loop over \<open>i\<close>; the state is
  what the loop body writes: the member array (or the name array, the value buffer and
  \<open>tbuf\<close>), the caller's \<open>map\<close> (\<open>None\<close> is \<^verbatim>\<open>NULL\<close>) and \<open>swapped\<close>.
\<close>

function sort_value_compnd_inner ::
    "int \<Rightarrow> int \<Rightarrow> H5T_cmemb_t list \<times> int list option \<times> bool
       \<Rightarrow> H5T_cmemb_t list \<times> int list option \<times> bool" where
  "sort_value_compnd_inner j i (membs, map_arr, swapped) =
     (if j < i then
        (if offset (membs ! nat j) > offset (membs ! nat (j + 1))
         then sort_value_compnd_inner (j + 1) i (swap_memb membs j, swap_map map_arr j, True)
         else sort_value_compnd_inner (j + 1) i (membs, map_arr, swapped))
      else (membs, map_arr, swapped))"
  by pat_completeness auto
termination
  by (relation "measure (\<lambda>(j, i, st). nat (i - j))") auto

function sort_value_compnd_outer ::
    "int \<Rightarrow> bool \<Rightarrow> H5T_cmemb_t list \<times> int list option
       \<Rightarrow> H5T_cmemb_t list \<times> int list option" where
  "sort_value_compnd_outer i swapped (membs, map_arr) =
     (if i > 0 \<and> swapped then
        (case sort_value_compnd_inner 0 i (membs, map_arr, False) of
           (membs', map_arr', swapped') \<Rightarrow>
             sort_value_compnd_outer (i - 1) swapped' (membs', map_arr'))
      else (membs, map_arr))"
  by pat_completeness auto
termination
  by (relation "measure (\<lambda>(i, swapped, st). nat i)") auto

function sort_value_enum_inner ::
    "nat \<Rightarrow> int \<Rightarrow> int \<Rightarrow> string list \<times> uint8_t list \<times> uint8_t list \<times> int list option \<times> bool
       \<Rightarrow> string list \<times> uint8_t list \<times> uint8_t list \<times> int list option \<times> bool" where
  "sort_value_enum_inner sz j i (names, val, tbuf, map_arr, swapped) =
     (if j < i then
        (if HDmemcmp (drop (nat j * sz) val) (drop (nat (j + 1) * sz) val) sz > 0
         then (case swap_value sz tbuf val j of
                 (tbuf', val') \<Rightarrow>
                   sort_value_enum_inner sz (j + 1) i
                     (swap_name names j, val', tbuf', swap_map map_arr j, True))
         else sort_value_enum_inner sz (j + 1) i (names, val, tbuf, map_arr, swapped))
      else (names, val, tbuf, map_arr, swapped))"
  by pat_completeness auto
termination
  by (relation "measure (\<lambda>(sz, j, i, st). nat (i - j))") auto

function sort_value_enum_outer ::
    "nat \<Rightarrow> int \<Rightarrow> bool \<Rightarrow> string list \<times> uint8_t list \<times> uint8_t list \<times> int list option
       \<Rightarrow> string list \<times> uint8_t list \<times> uint8_t list \<times> int list option" where
  "sort_value_enum_outer sz i swapped (names, val, tbuf, map_arr) =
     (if i > 0 \<and> swapped then
        (case sort_value_enum_inner sz 0 i (names, val, tbuf, map_arr, False) of
           (names', val', tbuf', map_arr', swapped') \<Rightarrow>
             sort_value_enum_outer sz (i - 1) swapped' (names', val', tbuf', map_arr'))
      else (names, val, tbuf, map_arr))"
  by pat_completeness auto
termination
  by (relation "measure (\<lambda>(sz, i, swapped, st). nat i)") auto

subsection \<open>The loops of \<^verbatim>\<open>H5T_sort_name\<close>\<close>

function sort_name_compnd_inner ::
    "int \<Rightarrow> int \<Rightarrow> H5T_cmemb_t list \<times> int list option \<times> bool
       \<Rightarrow> H5T_cmemb_t list \<times> int list option \<times> bool" where
  "sort_name_compnd_inner j i (membs, map_arr, swapped) =
     (if j < i then
        (if HDstrcmp (name (membs ! nat j)) (name (membs ! nat (j + 1))) > 0
         then sort_name_compnd_inner (j + 1) i (swap_memb membs j, swap_map map_arr j, True)
         else sort_name_compnd_inner (j + 1) i (membs, map_arr, swapped))
      else (membs, map_arr, swapped))"
  by pat_completeness auto
termination
  by (relation "measure (\<lambda>(j, i, st). nat (i - j))") auto

function sort_name_compnd_outer ::
    "int \<Rightarrow> bool \<Rightarrow> H5T_cmemb_t list \<times> int list option
       \<Rightarrow> H5T_cmemb_t list \<times> int list option" where
  "sort_name_compnd_outer i swapped (membs, map_arr) =
     (if i > 0 \<and> swapped then
        (case sort_name_compnd_inner 0 i (membs, map_arr, False) of
           (membs', map_arr', swapped') \<Rightarrow>
             sort_name_compnd_outer (i - 1) swapped' (membs', map_arr'))
      else (membs, map_arr))"
  by pat_completeness auto
termination
  by (relation "measure (\<lambda>(i, swapped, st). nat i)") auto

function sort_name_enum_inner ::
    "nat \<Rightarrow> int \<Rightarrow> int \<Rightarrow> string list \<times> uint8_t list \<times> uint8_t list \<times> int list option \<times> bool
       \<Rightarrow> string list \<times> uint8_t list \<times> uint8_t list \<times> int list option \<times> bool" where
  "sort_name_enum_inner sz j i (names, val, tbuf, map_arr, swapped) =
     (if j < i then
        (if HDstrcmp (names ! nat j) (names ! nat (j + 1)) > 0
         then (case swap_value sz tbuf val j of
                 (tbuf', val') \<Rightarrow>
                   sort_name_enum_inner sz (j + 1) i
                     (swap_name names j, val', tbuf', swap_map map_arr j, True))
         else sort_name_enum_inner sz (j + 1) i (names, val, tbuf, map_arr, swapped))
      else (names, val, tbuf, map_arr, swapped))"
  by pat_completeness auto
termination
  by (relation "measure (\<lambda>(sz, j, i, st). nat (i - j))") auto

function sort_name_enum_outer ::
    "nat \<Rightarrow> int \<Rightarrow> bool \<Rightarrow> string list \<times> uint8_t list \<times> uint8_t list \<times> int list option
       \<Rightarrow> string list \<times> uint8_t list \<times> uint8_t list \<times> int list option" where
  "sort_name_enum_outer sz i swapped (names, val, tbuf, map_arr) =
     (if i > 0 \<and> swapped then
        (case sort_name_enum_inner sz 0 i (names, val, tbuf, map_arr, False) of
           (names', val', tbuf', map_arr', swapped') \<Rightarrow>
             sort_name_enum_outer sz (i - 1) swapped' (names', val', tbuf', map_arr'))
      else (names, val, tbuf, map_arr))"
  by pat_completeness auto
termination
  by (relation "measure (\<lambda>(sz, i, swapped, st). nat i)") auto

declare sort_value_compnd_inner.simps [simp del]
declare sort_value_compnd_outer.simps [simp del]
declare sort_value_enum_inner.simps [simp del]
declare sort_value_enum_outer.simps [simp del]
declare sort_name_compnd_inner.simps [simp del]
declare sort_name_compnd_outer.simps [simp del]
declare sort_name_enum_inner.simps [simp del]
declare sort_name_enum_outer.simps [simp del]

subsection \<open>The sorts\<close>

text \<open>
  The loop \<^verbatim>\<open>for (i=0; i<nmembs-1; i++) assert(P(i));\<close> that follows each sort when
  \<^verbatim>\<open>NDEBUG\<close> is not defined: \<open>True\<close> when no assertion fails.
\<close>

function assert_loop :: "(int \<Rightarrow> bool) \<Rightarrow> int \<Rightarrow> int \<Rightarrow> bool" where
  "assert_loop P i nmembs =
     (if i < nmembs - 1 then (if P i then assert_loop P (i + 1) nmembs else False)
      else True)"
  by pat_completeness auto
termination
  by (relation "measure (\<lambda>(P, i, nmembs). nat (nmembs - i))") auto

declare assert_loop.simps [simp del]

text \<open>
  A call either returns, or stops the program at a failed \<^verbatim>\<open>assert\<close>. The first
  argument of the sorts says whether \<^verbatim>\<open>NDEBUG\<close> is defined, which compiles every
  \<^verbatim>\<open>assert\<close> out.
\<close>

datatype 'a outcome = Assert_failed | Returned 'a

definition H5T_sort_value ::
    "bool \<Rightarrow> H5T_t \<Rightarrow> int list option \<Rightarrow> (herr_t \<times> H5T_t \<times> int list option) outcome" where
  "H5T_sort_value ndebug dt map_arr =
     (case u dt of
        Other_class \<Rightarrow>
          if ndebug then Returned (SUCCEED, dt, map_arr) else Assert_failed
      | Compnd c \<Rightarrow>
          if H5T_SORT_VALUE \<noteq> compnd_sorted c then
            (let nmembs = compnd_nmembs c in
             case sort_value_compnd_outer (nmembs - 1) True (memb c, map_arr) of
               (membs', map_arr') \<Rightarrow>
                 if ndebug \<or>
                    assert_loop (\<lambda>i. offset (membs' ! nat i) < offset (membs' ! nat (i + 1)))
                      0 nmembs
                 then Returned
                   (SUCCEED,
                    dt\<lparr>u := Compnd (c\<lparr>compnd_sorted := H5T_SORT_VALUE, memb := membs'\<rparr>)\<rparr>,
                    map_arr')
                 else Assert_failed)
          else Returned (SUCCEED, dt, map_arr)
      | Enumer e \<Rightarrow>
          if H5T_SORT_VALUE \<noteq> enumer_sorted e then
            (let nmembs = enumer_nmembs e; sz = dt_size dt in
             if \<not> ndebug \<and> \<not> sz \<le> 32 then Assert_failed
             else
               case sort_value_enum_outer sz (nmembs - 1) True
                      (enumer_name e, enumer_value e, tbuf_init, map_arr) of
                 (names', val', tbuf', map_arr') \<Rightarrow>
                   if ndebug \<or>
                      assert_loop
                        (\<lambda>i. HDmemcmp (drop (nat i * sz) val') (drop (nat (i + 1) * sz) val') sz < 0)
                        0 nmembs
                   then Returned
                     (SUCCEED,
                      dt\<lparr>u := Enumer (e\<lparr>enumer_sorted := H5T_SORT_VALUE,
                                         enumer_value := val', enumer_name := names'\<rparr>)\<rparr>,
                      map_arr')
                   else Assert_failed)
          else Returned (SUCCEED, dt, map_arr))"

definition H5T_sort_name ::
    "bool \<Rightarrow> H5T_t \<Rightarrow> int list option \<Rightarrow> (herr_t \<times> H5T_t \<times> int list option) outcome" where
  "H5T_sort_name ndebug dt map_arr =
     (case u dt of
        Other_class \<Rightarrow>
          if ndebug then Returned (SUCCEED, dt, map_arr) else Assert_failed
      | Compnd c \<Rightarrow>
          if H5T_SORT_NAME \<noteq> compnd_sorted c then
            (let nmembs = compnd_nmembs c in
             case sort_name_compnd_outer (nmembs - 1) True (memb c, map_arr) of
               (membs', map_arr') \<Rightarrow>
                 if ndebug \<or>
                    assert_loop
                      (\<lambda>i. HDstrcmp (name (membs' ! nat i)) (name (membs' ! nat (i + 1))) < 0)
                      0 nmembs
                 then Returned
                   (SUCCEED,
                    dt\<lparr>u := Compnd (c\<lparr>compnd_sorted := H5T_SORT_NAME, memb := membs'\<rparr>)\<rparr>,
                    map_arr')
                 else Assert_failed)
          else Returned (SUCCEED, dt, map_arr)
      | Enumer e \<Rightarrow>
          if H5T_SORT_NAME \<noteq> enumer_sorted e then
            (let nmembs = enumer_nmembs e; sz = dt_size dt in
             if \<not> ndebug \<and> \<not> sz \<le> 32 then Assert_failed
             else
               case sort_name_enum_outer sz (nmembs - 1) True
                      (enumer_name e, enumer_value e, tbuf_init, map_arr) of
                 (names', val', tbuf', map_arr') \<Rightarrow>
                   if ndebug \<or>
                      assert_loop
                        (\<lambda>i. HDstrcmp (names' ! nat i) (names' ! nat (i + 1)) < 0)
                        0 nmembs
                   then Returned
                     (SUCCEED,
                      dt\<lparr>u := Enumer (e\<lparr>enumer_sorted := H5T_SORT_NAME,
                                         enumer_value := val', enumer_name := names'\<rparr>)\<rparr>,
                      map_arr')
                   else Assert_failed)
          else Returned (SUCCEED, dt, map_arr))"

section \<open>Notions used to state and prove the properties\<close>

subsection \<open>Preconditions of the calls\<close>

text \<open>
  The value \<open>k\<close> of an enumeration: the \<open>sz\<close> bytes at \<^verbatim>\<open>value + k*size\<close>.
\<close>

definition enum_value :: "nat \<Rightarrow> uint8_t list \<Rightarrow> nat \<Rightarrow> uint8_t list" where
  "enum_value sz val k = take sz (drop (k * sz) val)"

definition enum_values :: "nat \<Rightarrow> nat \<Rightarrow> uint8_t list \<Rightarrow> uint8_t list list" where
  "enum_values sz n val = map (enum_value sz val) [0..<n]"

text \<open>
  What the member queries take for granted of a descriptor: the member array of a
  record, and the name array of an enumeration, hold exactly \<open>nmembs\<close> members.
\<close>

definition count_ok :: "H5T_t \<Rightarrow> bool" where
  "count_ok dt =
     (case u dt of
        Compnd c \<Rightarrow> compnd_nmembs c = int (length (memb c))
      | Enumer e \<Rightarrow> enumer_nmembs e = int (length (enumer_name e))
      | Other_class \<Rightarrow> True)"

text \<open>
  What the sorts take for granted of a descriptor: the arrays hold exactly \<open>nmembs\<close>
  members, the value buffer of an enumeration holds \<open>nmembs\<close> values of \<open>size\<close> bytes,
  and \<open>size\<close> fits \<open>tbuf\<close> (the asserted \<^verbatim>\<open>size<=sizeof(tbuf)\<close>). Outside it the C code
  reads or writes out of bounds.
\<close>

definition H5T_ok :: "H5T_t \<Rightarrow> bool" where
  "H5T_ok dt =
     (case u dt of
        Compnd c \<Rightarrow> compnd_nmembs c = int (length (memb c))
      | Enumer e \<Rightarrow>
          enumer_nmembs e = int (length (enumer_name e)) \<and>
          length (enumer_value e) = length (enumer_name e) * dt_size dt \<and>
          dt_size dt \<le> 32
      | Other_class \<Rightarrow> True)"

text \<open>A \<open>map\<close> that is not \<^verbatim>\<open>NULL\<close> is an array of \<open>nmembs\<close> integers.\<close>

definition map_ok :: "H5T_t \<Rightarrow> int list option \<Rightarrow> bool" where
  "map_ok dt map_arr =
     (case map_arr of
        None \<Rightarrow> True
      | Some m \<Rightarrow>
          (case u dt of
             Compnd c \<Rightarrow> int (length m) = compnd_nmembs c
           | Enumer e \<Rightarrow> int (length m) = enumer_nmembs e
           | Other_class \<Rightarrow> True))"

text \<open>
  Modelled from the spec: the invariant of \<open>sortState\<close> in the data model, which the
  code that builds descriptors (not among the sources) maintains:
  "\<open>sortState == BY_POSITION\<close> implies \<open>members\<close> is non-decreasingly ordered by
  \<open>byteOffset\<close> (record) or by \<open>value\<close> (enum)" and "\<open>sortState == BY_NAME\<close> implies
  \<open>members\<close> is [...] ordered by name". Names are ordered as C strings, bytewise; values
  as byte sequences, bytewise.
\<close>

definition sort_state_ok :: "H5T_t \<Rightarrow> bool" where
  "sort_state_ok dt =
     (case u dt of
        Compnd c \<Rightarrow>
          (compnd_sorted c = H5T_SORT_VALUE \<longrightarrow> sorted (map offset (memb c))) \<and>
          (compnd_sorted c = H5T_SORT_NAME \<longrightarrow> sorted (map (\<lambda>m. c_str (name m)) (memb c)))
      | Enumer e \<Rightarrow>
          (enumer_sorted e = H5T_SORT_VALUE \<longrightarrow>
             sorted (enum_values (dt_size dt) (length (enumer_name e)) (enumer_value e))) \<and>
          (enumer_sorted e = H5T_SORT_NAME \<longrightarrow> sorted (map c_str (enumer_name e)))
      | Other_class \<Rightarrow> True)"

text \<open>The \<open>sortState\<close> of a descriptor: \<^verbatim>\<open>dt->u.compnd.sorted\<close> or \<^verbatim>\<open>dt->u.enumer.sorted\<close>.\<close>

definition sort_state :: "H5T_t \<Rightarrow> H5T_sort_t option" where
  "sort_state dt =
     (case u dt of
        Compnd c \<Rightarrow> Some (compnd_sorted c)
      | Enumer e \<Rightarrow> Some (enumer_sorted e)
      | Other_class \<Rightarrow> None)"

text \<open>
  The members of a descriptor as pairs of a name and its key: the byte offset of a
  record member, the value of an enumeration member.
\<close>

definition members :: "H5T_t \<Rightarrow> (string \<times> (nat + uint8_t list)) list" where
  "members dt =
     (case u dt of
        Compnd c \<Rightarrow> map (\<lambda>m. (name m, Inl (offset m))) (memb c)
      | Enumer e \<Rightarrow>
          zip (enumer_name e)
            (map Inr (enum_values (dt_size dt) (length (enumer_name e)) (enumer_value e)))
      | Other_class \<Rightarrow> [])"

subsection \<open>The bubble sort on a list\<close>

text \<open>
  The four pairs of loops are one algorithm: a bubble sort by a key, on the list of
  members taken together with their \<open>map\<close> entries. It is defined here once, on a list,
  and each pair of loops is shown to compute it.
\<close>

definition swap_adj :: "nat \<Rightarrow> 'a list \<Rightarrow> 'a list" where
  "swap_adj j xs = xs[j := xs ! Suc j, Suc j := xs ! j]"

function bubble_pass :: "('a \<Rightarrow> 'k::linorder) \<Rightarrow> nat \<Rightarrow> nat \<Rightarrow> 'a list \<Rightarrow> bool \<Rightarrow> 'a list \<times> bool" where
  "bubble_pass key j i xs swapped =
     (if j < i then
        (if key (xs ! j) > key (xs ! Suc j)
         then bubble_pass key (Suc j) i (swap_adj j xs) True
         else bubble_pass key (Suc j) i xs swapped)
      else (xs, swapped))"
  by pat_completeness auto
termination
  by (relation "measure (\<lambda>(key, j, i, xs, swapped). i - j)") auto

function bubble_sort :: "('a \<Rightarrow> 'k::linorder) \<Rightarrow> nat \<Rightarrow> bool \<Rightarrow> 'a list \<Rightarrow> 'a list" where
  "bubble_sort key i swapped xs =
     (if i > 0 \<and> swapped then
        (case bubble_pass key 0 i xs False of
           (xs', swapped') \<Rightarrow> bubble_sort key (i - 1) swapped' xs')
      else xs)"
  by pat_completeness auto
termination
  by (relation "measure (\<lambda>(key, i, swapped, xs). i)") auto

declare bubble_pass.simps [simp del]
declare bubble_sort.simps [simp del]

text \<open>The entries of \<open>map\<close>; an absent \<open>map\<close> moves nothing.\<close>

definition map_list :: "nat \<Rightarrow> int list option \<Rightarrow> int list" where
  "map_list n map_arr = (case map_arr of None \<Rightarrow> replicate n 0 | Some m \<Rightarrow> m)"

subsection \<open>The names of the specification\<close>

text \<open>
  The specification calls the error of a member number out of range \<open>InvalidIndex\<close> and
  the error of a type class without members \<open>UnsupportedKind\<close>.
\<close>

definition InvalidIndex :: H5E_error where
  "InvalidIndex = (H5E_ARGS, H5E_BADVALUE, ''invalid member number'')"

definition UnsupportedKind :: H5E_error where
  "UnsupportedKind = (H5E_ARGS, H5E_BADTYPE, ''operation not supported for type class'')"

text \<open>
  Scenario A: the record \<open>[("b", 8), ("a", 0), ("c", 4)]\<close>, and the records it is
  sorted to by position and by name.
\<close>

definition scenario_A :: H5T_t where
  "scenario_A =
     \<lparr>dt_size = 12,
      u = Compnd \<lparr>compnd_nmembs = 3, compnd_sorted = H5T_SORT_NONE,
                  memb = [\<lparr>name = ''b'', offset = 8\<rparr>, \<lparr>name = ''a'', offset = 0\<rparr>,
                          \<lparr>name = ''c'', offset = 4\<rparr>]\<rparr>\<rparr>"

definition scenario_A_by_position :: H5T_t where
  "scenario_A_by_position =
     \<lparr>dt_size = 12,
      u = Compnd \<lparr>compnd_nmembs = 3, compnd_sorted = H5T_SORT_VALUE,
                  memb = [\<lparr>name = ''a'', offset = 0\<rparr>, \<lparr>name = ''c'', offset = 4\<rparr>,
                          \<lparr>name = ''b'', offset = 8\<rparr>]\<rparr>\<rparr>"

definition scenario_A_by_name :: H5T_t where
  "scenario_A_by_name =
     \<lparr>dt_size = 12,
      u = Compnd \<lparr>compnd_nmembs = 3, compnd_sorted = H5T_SORT_NAME,
                  memb = [\<lparr>name = ''a'', offset = 0\<rparr>, \<lparr>name = ''b'', offset = 8\<rparr>,
                          \<lparr>name = ''c'', offset = 4\<rparr>]\<rparr>\<rparr>"

text \<open>
  Scenario B: the enumeration \<open>[("RED", 2), ("GREEN", 1)]\<close> with 4-byte values, stored
  least significant byte first (\<open>le\<close>) or most significant byte first (\<open>be\<close>), and the
  enumerations they are sorted to by value and by name.
\<close>

definition scenario_B_le :: H5T_t where
  "scenario_B_le =
     \<lparr>dt_size = 4,
      u = Enumer \<lparr>enumer_nmembs = 2, enumer_sorted = H5T_SORT_NONE,
                  enumer_value = [2, 0, 0, 0, 1, 0, 0, 0],
                  enumer_name = [''RED'', ''GREEN'']\<rparr>\<rparr>"

definition scenario_B_le_by_value :: H5T_t where
  "scenario_B_le_by_value =
     \<lparr>dt_size = 4,
      u = Enumer \<lparr>enumer_nmembs = 2, enumer_sorted = H5T_SORT_VALUE,
                  enumer_value = [1, 0, 0, 0, 2, 0, 0, 0],
                  enumer_name = [''GREEN'', ''RED'']\<rparr>\<rparr>"

definition scenario_B_le_by_name :: H5T_t where
  "scenario_B_le_by_name =
     \<lparr>dt_size = 4,
      u = Enumer \<lparr>enumer_nmembs = 2, enumer_sorted = H5T_SORT_NAME,
                  enumer_value = [1, 0, 0, 0, 2, 0, 0, 0],
                  enumer_name = [''GREEN'', ''RED'']\<rparr>\<rparr>"

definition scenario_B_be :: H5T_t where
  "scenario_B_be =
     \<lparr>dt_size = 4,
      u = Enumer \<lparr>enumer_nmembs = 2, enumer_sorted = H5T_SORT_NONE,
                  enumer_value = [0, 0, 0, 2, 0, 0, 0, 1],
                  enumer_name = [''RED'', ''GREEN'']\<rparr>\<rparr>"

definition scenario_B_be_by_value :: H5T_t where
  "scenario_B_be_by_value =
     \<lparr>dt_size = 4,
      u = Enumer \<lparr>enumer_nmembs = 2, enumer_sorted = H5T_SORT_VALUE,
                  enumer_value = [0, 0, 0, 1, 0, 0, 0, 2],
                  enumer_name = [''GREEN'', ''RED'']\<rparr>\<rparr>"

text \<open>
  Further descriptors to evaluate the operations on: an integer type, a record without
  members, and a record with the name \<open>"x"\<close> twice.
\<close>

definition integer_type :: H5T_t where
  "integer_type = \<lparr>dt_size = 4, u = Other_class\<rparr>"

definition empty_record :: H5T_t where
  "empty_record =
     \<lparr>dt_size = 0,
      u = Compnd \<lparr>compnd_nmembs = 0, compnd_sorted = H5T_SORT_NONE, memb = []\<rparr>\<rparr>"

definition duplicate_record :: H5T_t where
  "duplicate_record =
     \<lparr>dt_size = 12,
      u = Compnd \<lparr>compnd_nmembs = 3, compnd_sorted = H5T_SORT_NONE,
                  memb = [\<lparr>name = ''x'', offset = 8\<rparr>, \<lparr>name = ''y'', offset = 4\<rparr>,
                          \<lparr>name = ''x'', offset = 0\<rparr>]\<rparr>\<rparr>"

definition duplicate_record_by_position :: H5T_t where
  "duplicate_record_by_position =
     \<lparr>dt_size = 12,
      u = Compnd \<lparr>compnd_nmembs = 3, compnd_sorted = H5T_SORT_VALUE,
                  memb = [\<lparr>name = ''x'', offset = 0\<rparr>, \<lparr>name = ''y'', offset = 4\<rparr>,
                          \<lparr>name = ''x'', offset = 8\<rparr>]\<rparr>\<rparr>"

section \<open>Properties of the bubble sort on a list\<close>

lemma length_swap_adj [simp]: "length (swap_adj j xs) = length xs"
  by (simp add: swap_adj_def)

lemma mset_swap_adj: "Suc j < length xs \<Longrightarrow> mset (swap_adj j xs) = mset xs"
  by (simp add: swap_adj_def mset_swap)

lemma drop_swap_adj: "Suc j < n \<Longrightarrow> drop n (swap_adj j xs) = drop n xs"
  by (simp add: swap_adj_def drop_update_cancel)

lemma nth_swap_adj:
  "Suc j < length xs \<Longrightarrow>
   swap_adj j xs ! k = (if k = j then xs ! Suc j else if k = Suc j then xs ! j else xs ! k)"
  by (simp add: swap_adj_def nth_list_update)

lemma bubble_pass_length: "bubble_pass key j i xs sw = (xs', sw') \<Longrightarrow> length xs' = length xs"
proof (induction key j i xs sw rule: bubble_pass.induct)
  case (1 key j i xs swapped)
  then show ?case
    by (subst (asm) (3) bubble_pass.simps) (auto split: if_splits)
qed

lemma bubble_pass_mset:
  "i < length xs \<Longrightarrow> bubble_pass key j i xs sw = (xs', sw') \<Longrightarrow> mset xs' = mset xs"
proof (induction key j i xs sw rule: bubble_pass.induct)
  case (1 key j i xs swapped)
  from "1.prems"(2) show ?case
  proof (subst (asm) bubble_pass.simps, simp split: if_splits)
    assume a: "j < i" "key (xs ! Suc j) < key (xs ! j)"
      and b: "bubble_pass key (Suc j) i (swap_adj j xs) True = (xs', sw')"
    from "1.IH"(1)[OF a(1) a(2) _ b] "1.prems"(1) a(1) show ?thesis
      by (simp add: mset_swap_adj)
  next
    assume a: "j < i" "\<not> key (xs ! Suc j) < key (xs ! j)"
      and b: "bubble_pass key (Suc j) i xs swapped = (xs', sw')"
    from "1.IH"(2)[OF a(1) a(2) "1.prems"(1) b] show ?thesis .
  qed
qed

lemma bubble_pass_drop:
  "i < length xs \<Longrightarrow> bubble_pass key j i xs sw = (xs', sw') \<Longrightarrow> drop (Suc i) xs' = drop (Suc i) xs"
proof (induction key j i xs sw rule: bubble_pass.induct)
  case (1 key j i xs swapped)
  show ?case
  proof (cases "j < i")
    case False
    with "1.prems" show ?thesis by (simp add: bubble_pass.simps)
  next
    case lt: True
    show ?thesis
    proof (cases "key (xs ! Suc j) < key (xs ! j)")
      case True
      with lt "1.prems"(2) have b: "bubble_pass key (Suc j) i (swap_adj j xs) True = (xs', sw')"
        by (simp add: bubble_pass.simps)
      from "1.IH"(1)[OF lt True _ b] "1.prems"(1) lt show ?thesis
        by (simp add: drop_swap_adj)
    next
      case False
      with lt "1.prems"(2) have b: "bubble_pass key (Suc j) i xs swapped = (xs', sw')"
        by (simp add: bubble_pass.simps)
      from "1.IH"(2)[OF lt False "1.prems"(1) b] show ?thesis .
    qed
  qed
qed

lemma bubble_pass_max:
  "i < length xs \<Longrightarrow> j \<le> i \<Longrightarrow> bubble_pass key j i xs sw = (xs', sw') \<Longrightarrow>
   \<forall>k\<le>j. key (xs ! k) \<le> key (xs ! j) \<Longrightarrow> \<forall>k\<le>i. key (xs' ! k) \<le> key (xs' ! i)"
proof (induction key j i xs sw rule: bubble_pass.induct)
  case (1 key j i xs swapped)
  show ?case
  proof (cases "j < i")
    case False
    with "1.prems" show ?thesis by (simp add: bubble_pass.simps)
  next
    case lt: True
    then have sj: "Suc j < length xs" "Suc j \<le> i" using "1.prems"(1) by auto
    show ?thesis
    proof (cases "key (xs ! Suc j) < key (xs ! j)")
      case True
      with lt "1.prems"(3) have b: "bubble_pass key (Suc j) i (swap_adj j xs) True = (xs', sw')"
        by (simp add: bubble_pass.simps)
      have m: "\<forall>k\<le>Suc j. key (swap_adj j xs ! k) \<le> key (swap_adj j xs ! Suc j)"
        using "1.prems"(4) True sj(1) by (auto simp: nth_swap_adj le_Suc_eq)
      from "1.IH"(1)[OF lt True _ sj(2) b m] "1.prems"(1) show ?thesis by simp
    next
      case False
      with lt "1.prems"(3) have b: "bubble_pass key (Suc j) i xs swapped = (xs', sw')"
        by (simp add: bubble_pass.simps)
      have m: "\<forall>k\<le>Suc j. key (xs ! k) \<le> key (xs ! Suc j)"
      proof (intro allI impI)
        fix k assume "k \<le> Suc j"
        then consider "k = Suc j" | "k \<le> j" by linarith
        then show "key (xs ! k) \<le> key (xs ! Suc j)"
        proof cases
          case 1 then show ?thesis by simp
        next
          case 2
          with "1.prems"(4) have "key (xs ! k) \<le> key (xs ! j)" by simp
          also from False have "key (xs ! j) \<le> key (xs ! Suc j)" by simp
          finally show ?thesis .
        qed
      qed
      from "1.IH"(2)[OF lt False "1.prems"(1) sj(2) b m] show ?thesis .
    qed
  qed
qed

lemma bubble_pass_no_swap:
  "bubble_pass key j i xs sw = (xs', sw') \<Longrightarrow> \<not> sw' \<Longrightarrow>
   xs' = xs \<and> \<not> sw \<and> (\<forall>k. j \<le> k \<and> k < i \<longrightarrow> key (xs ! k) \<le> key (xs ! Suc k))"
proof (induction key j i xs sw rule: bubble_pass.induct)
  case (1 key j i xs swapped)
  show ?case
  proof (cases "j < i")
    case False
    with "1.prems" show ?thesis by (auto simp: bubble_pass.simps)
  next
    case lt: True
    show ?thesis
    proof (cases "key (xs ! Suc j) < key (xs ! j)")
      case True
      with lt "1.prems"(1) have b: "bubble_pass key (Suc j) i (swap_adj j xs) True = (xs', sw')"
        by (simp add: bubble_pass.simps)
      from "1.IH"(1)[OF lt True b "1.prems"(2)] show ?thesis by simp
    next
      case False
      with lt "1.prems"(1) have b: "bubble_pass key (Suc j) i xs swapped = (xs', sw')"
        by (simp add: bubble_pass.simps)
      from "1.IH"(2)[OF lt False b "1.prems"(2)]
      have ih: "xs' = xs" "\<not> swapped" "\<forall>k. Suc j \<le> k \<and> k < i \<longrightarrow> key (xs ! k) \<le> key (xs ! Suc k)"
        by auto
      have "\<forall>k. j \<le> k \<and> k < i \<longrightarrow> key (xs ! k) \<le> key (xs ! Suc k)"
      proof (intro allI impI)
        fix k assume k: "j \<le> k \<and> k < i"
        show "key (xs ! k) \<le> key (xs ! Suc k)"
        proof (cases "k = j")
          case True with False show ?thesis by simp
        next
          case False with k ih(3) show ?thesis by simp
        qed
      qed
      with ih show ?thesis by simp
    qed
  qed
qed

lemma bubble_sort_length: "length (bubble_sort key i sw xs) = length xs"
proof (induction key i sw xs rule: bubble_sort.induct)
  case (1 key i swapped xs)
  show ?case
  proof (cases "i > 0 \<and> swapped")
    case False
    then show ?thesis by (subst bubble_sort.simps) auto
  next
    case True
    obtain xs' sw' where p: "bubble_pass key 0 i xs False = (xs', sw')" by force
    have unf: "bubble_sort key i swapped xs = bubble_sort key (i - 1) sw' xs'"
      using True p by (subst bubble_sort.simps) simp
    from "1.IH"[OF True p[symmetric]] bubble_pass_length[OF p] show ?thesis
      by (simp add: unf)
  qed
qed

lemma bubble_sort_mset: "i < length xs \<Longrightarrow> mset (bubble_sort key i sw xs) = mset xs"
proof (induction key i sw xs rule: bubble_sort.induct)
  case (1 key i swapped xs)
  show ?case
  proof (cases "i > 0 \<and> swapped")
    case False
    then show ?thesis by (subst bubble_sort.simps) auto
  next
    case True
    obtain xs' sw' where p: "bubble_pass key 0 i xs False = (xs', sw')" by force
    have "i - 1 < length xs'" using bubble_pass_length[OF p] "1.prems" by simp
    from "1.IH"[OF True p[symmetric] this] bubble_pass_mset[OF "1.prems" p]
    show ?thesis
      using True p by (subst bubble_sort.simps) simp
  qed
qed

lemma sorted_adjacent:
  "(\<forall>k. Suc k < length ys \<longrightarrow> ys ! k \<le> ys ! Suc k) \<Longrightarrow> sorted (ys :: 'k::linorder list)"
  by (simp add: sorted_iff_nth_Suc)

lemma bubble_sort_sorted_aux:
  "i < length xs \<Longrightarrow>
   sorted (map key (drop (Suc i) xs)) \<Longrightarrow>
   (\<forall>x\<in>set (take (Suc i) xs). \<forall>y\<in>set (drop (Suc i) xs). key x \<le> key y) \<Longrightarrow>
   (\<not> sw \<longrightarrow> sorted (map key xs)) \<Longrightarrow>
   sorted (map key (bubble_sort key i sw xs))"
proof (induction key i sw xs rule: bubble_sort.induct)
  case (1 key i swapped xs)
  note len = "1.prems"(1) and suf = "1.prems"(2) and sep = "1.prems"(3) and nsw = "1.prems"(4)
  show ?case
  proof (cases "i > 0 \<and> swapped")
    case False
    then have r: "bubble_sort key i swapped xs = xs" by (subst bubble_sort.simps) auto
    show ?thesis
    proof (cases swapped)
      case False with nsw r show ?thesis by simp
    next
      case True
      with \<open>\<not> (i > 0 \<and> swapped)\<close> have i0: "i = 0" by simp
      from len i0 obtain x rest where xs: "xs = x # rest" by (cases xs) auto
      from suf sep i0 xs have "sorted (map key xs)" by simp
      with r show ?thesis by simp
    qed
  next
    case True
    obtain xs' sw' where p: "bubble_pass key 0 i xs False = (xs', sw')" by force
    have len': "length xs' = length xs" by (rule bubble_pass_length[OF p])
    have dr: "drop (Suc i) xs' = drop (Suc i) xs" by (rule bubble_pass_drop[OF len p])
    have ms: "mset xs' = mset xs" by (rule bubble_pass_mset[OF len p])
    have mx: "\<forall>k\<le>i. key (xs' ! k) \<le> key (xs' ! i)"
      by (rule bubble_pass_max[OF len _ p]) auto
    have "mset (take (Suc i) xs') + mset (drop (Suc i) xs') = mset (take (Suc i) xs) + mset (drop (Suc i) xs)"
      using ms by (simp flip: mset_append)
    with dr have mt: "mset (take (Suc i) xs') = mset (take (Suc i) xs)" by simp
    then have st: "set (take (Suc i) xs') = set (take (Suc i) xs)" by (rule mset_eq_setD)
    from True have ipos: "0 < i" by simp
    have i1: "i - 1 < length xs'" using len len' by simp
    have di: "drop i xs' = xs' ! i # drop (Suc i) xs'"
      using len len' by (simp add: Cons_nth_drop_Suc)
    have xi: "xs' ! i \<in> set (take (Suc i) xs')"
      using len len' by (auto simp: in_set_conv_nth intro!: exI[of _ i])
    have sep': "\<forall>x\<in>set (take (Suc i) xs'). \<forall>y\<in>set (drop (Suc i) xs'). key x \<le> key y"
      using sep st dr by simp
    have a: "sorted (map key (drop (Suc (i - 1)) xs'))"
      using ipos di sep' xi suf dr by simp
    have b: "\<forall>x\<in>set (take (Suc (i - 1)) xs'). \<forall>y\<in>set (drop (Suc (i - 1)) xs'). key x \<le> key y"
    proof (intro ballI)
      fix x y assume x: "x \<in> set (take (Suc (i - 1)) xs')" and y: "y \<in> set (drop (Suc (i - 1)) xs')"
      from x ipos have xt: "x \<in> set (take i xs')" by simp
      then obtain k where k: "k < i" "x = xs' ! k"
        using len len' by (auto simp: in_set_conv_nth)
      from xt have xt': "x \<in> set (take (Suc i) xs')"
        using set_take_subset_set_take[of i "Suc i" xs'] by auto
      from y ipos di have "y = xs' ! i \<or> y \<in> set (drop (Suc i) xs')" by simp
      then show "key x \<le> key y"
      proof
        assume "y = xs' ! i" with k mx show ?thesis by simp
      next
        assume "y \<in> set (drop (Suc i) xs')" with sep' xt' show ?thesis by simp
      qed
    qed
    have c: "\<not> sw' \<longrightarrow> sorted (map key xs')"
    proof
      assume ns: "\<not> sw'"
      from bubble_pass_no_swap[OF p ns]
      have adj: "\<forall>k. k < i \<longrightarrow> key (xs ! k) \<le> key (xs ! Suc k)" and eq: "xs' = xs" by auto
      have "sorted (map key (take (Suc i) xs))"
        by (rule sorted_adjacent) (use adj len in \<open>simp\<close>)
      moreover have "map key xs = map key (take (Suc i) xs) @ map key (drop (Suc i) xs)"
        by (simp flip: map_append)
      ultimately have "sorted (map key xs)"
        using suf sep by (simp add: sorted_append)
      with eq show "sorted (map key xs')" by simp
    qed
    have unf: "bubble_sort key i swapped xs = bubble_sort key (i - 1) sw' xs'"
      using True p by (subst bubble_sort.simps) simp
    from "1.IH"[OF True p[symmetric] i1 a b c] show ?thesis
      by (simp add: unf)
  qed
qed

lemma bubble_sort_sorted: "sorted (map key (bubble_sort key (length xs - 1) True xs))"
proof (cases xs)
  case Nil
  then show ?thesis by (simp add: bubble_sort.simps)
next
  case (Cons x rest)
  then show ?thesis by (intro bubble_sort_sorted_aux) auto
qed

lemma bubble_sort_mset_top: "mset (bubble_sort key (length xs - 1) True xs) = mset xs"
proof (cases xs)
  case Nil
  then show ?thesis by (simp add: bubble_sort.simps)
next
  case (Cons x rest)
  then show ?thesis by (intro bubble_sort_mset) auto
qed

section \<open>String and byte comparison\<close>

lemma of_char_eq_0_iff: "(of_char c :: int) = 0 \<longleftrightarrow> c = CHR 0x00"
proof -
  have "(of_char c :: int) = of_char (CHR 0x00) \<longleftrightarrow> c = CHR 0x00"
    by (simp only: of_char_eq_iff)
  then show ?thesis by simp
qed

lemma of_char_nonneg: "0 \<le> (of_char c :: int)"
  by (cases c) simp

lemma of_char_int_nat: "(of_char c :: int) = int (of_char c)"
  by (cases c) simp

lemma of_char_less_iff: "(of_char a :: int) < of_char b \<longleftrightarrow> a < b"
  by (simp add: less_char_def of_char_int_nat[of a] of_char_int_nat[of b])

lemma uint_neq: "x \<noteq> y \<Longrightarrow> uint (x :: 8 word) \<noteq> uint y"
  by (simp add: word_uint_eq_iff)

lemma of_char_pos_iff: "0 < (of_char c :: int) \<longleftrightarrow> c \<noteq> CHR 0x00"
  using of_char_nonneg[of c] of_char_eq_0_iff[of c] by linarith

lemma NUL_least: "\<not> y < CHR 0x00"
  by (simp add: less_char_def)

lemma c_str_Nil [simp]: "c_str [] = []"
  by (simp add: c_str_def)

lemma c_str_Cons: "c_str (x # xs) = (if x = CHR 0x00 then [] else x # c_str xs)"
  by (simp add: c_str_def)

lemma HDstrcmp_pos_iff: "0 < HDstrcmp a b \<longleftrightarrow> c_str b < c_str a"
proof (induction a b rule: HDstrcmp.induct)
  case 1
  then show ?case by simp
next
  case (2 y ys)
  have "\<not> 0 < (0::int) - of_char y" using of_char_nonneg[of y] by simp
  then show ?case by (simp add: c_str_Cons)
next
  case (3 x xs)
  then show ?case by (simp add: c_str_Cons of_char_pos_iff)
next
  case (4 x xs y ys)
  show ?case
  proof (cases "x = y")
    case True
    with 4 show ?thesis by (simp add: c_str_Cons)
  next
    case False
    have d: "0 < (of_char x :: int) - of_char y \<longleftrightarrow> y < x"
      using of_char_less_iff[of y x] by simp
    have r: "c_str (y # ys) < c_str (x # xs) \<longleftrightarrow> y < x"
    proof (cases "y = CHR 0x00")
      case True
      then have "x \<noteq> CHR 0x00" using False by simp
      moreover have "y < x" using True False NUL_least[of x] by (simp add: not_less less_le)
      ultimately show ?thesis using True by (simp add: c_str_Cons)
    next
      case yn: False
      show ?thesis
      proof (cases "x = CHR 0x00")
        case True
        then show ?thesis using yn NUL_least[of y] by (simp add: c_str_Cons)
      next
        case xn: False
        then show ?thesis using yn False by (simp add: c_str_Cons)
      qed
    qed
    from d r False show ?thesis by simp
  qed
qed

lemma HDstrcmp_eq_0_iff: "HDstrcmp a b = 0 \<longleftrightarrow> c_str a = c_str b"
proof (induction a b rule: HDstrcmp.induct)
  case 1
  then show ?case by simp
next
  case (2 y ys)
  then show ?case using of_char_eq_0_iff[of y] by (simp add: c_str_Cons)
next
  case (3 x xs)
  then show ?case using of_char_eq_0_iff[of x] by (simp add: c_str_Cons)
next
  case (4 x xs y ys)
  show ?case
  proof (cases "x = y")
    case True
    with 4 show ?thesis by (simp add: c_str_Cons)
  next
    case False
    then have "(of_char x :: int) \<noteq> of_char y" by simp
    then show ?thesis using False by (auto simp: c_str_Cons)
  qed
qed

lemma HDstrcmp_le_0_iff: "HDstrcmp a b \<le> 0 \<longleftrightarrow> c_str a \<le> c_str b"
  using HDstrcmp_pos_iff[of a b] by (simp add: not_less[symmetric])

lemma HDstrcmp_neg_iff: "HDstrcmp a b < 0 \<longleftrightarrow> c_str a < c_str b"
proof -
  have "HDstrcmp a b < 0 \<longleftrightarrow> \<not> 0 < HDstrcmp a b \<and> HDstrcmp a b \<noteq> 0" by linarith
  also have "\<dots> \<longleftrightarrow> \<not> c_str b < c_str a \<and> c_str a \<noteq> c_str b"
    by (simp only: HDstrcmp_pos_iff HDstrcmp_eq_0_iff)
  also have "\<dots> \<longleftrightarrow> c_str a < c_str b" by auto
  finally show ?thesis .
qed

lemma HDmemcmp_pos_iff:
  "n \<le> length a \<Longrightarrow> n \<le> length b \<Longrightarrow> 0 < HDmemcmp a b n \<longleftrightarrow> take n b < take n a"
proof (induction a b n rule: HDmemcmp.induct)
  case (1 x xs y ys n)
  show ?case
  proof (cases "x = y")
    case True
    with 1 show ?thesis by simp
  next
    case False
    have "0 < uint x - uint y \<longleftrightarrow> y < x" by (simp add: word_less_def)
    with False show ?thesis by simp
  qed
qed simp_all

lemma HDmemcmp_eq_0_iff:
  "n \<le> length a \<Longrightarrow> n \<le> length b \<Longrightarrow> HDmemcmp a b n = 0 \<longleftrightarrow> take n a = take n b"
proof (induction a b n rule: HDmemcmp.induct)
  case (1 x xs y ys n)
  show ?case
  proof (cases "x = y")
    case True
    with 1 show ?thesis by simp
  next
    case False
    then have "uint x \<noteq> uint y" by (rule uint_neq)
    with False show ?thesis by simp
  qed
qed simp_all

lemma HDmemcmp_neg_iff:
  "n \<le> length a \<Longrightarrow> n \<le> length b \<Longrightarrow> HDmemcmp a b n < 0 \<longleftrightarrow> take n a < take n b"
proof -
  assume n: "n \<le> length a" "n \<le> length b"
  have "HDmemcmp a b n < 0 \<longleftrightarrow> \<not> 0 < HDmemcmp a b n \<and> HDmemcmp a b n \<noteq> 0" by linarith
  also have "\<dots> \<longleftrightarrow> \<not> take n b < take n a \<and> take n a \<noteq> take n b"
    by (simp only: HDmemcmp_pos_iff[OF n] HDmemcmp_eq_0_iff[OF n])
  also have "\<dots> \<longleftrightarrow> take n a < take n b" by auto
  finally show ?thesis .
qed

section \<open>The swaps, on lists\<close>

lemma nat_Suc_int: "0 \<le> j \<Longrightarrow> nat (j + 1) = Suc (nat j)"
  by simp

lemma swap_memb_eq: "0 \<le> j \<Longrightarrow> swap_memb membs j = swap_adj (nat j) membs"
  by (simp add: swap_memb_def swap_adj_def nat_Suc_int Let_def)

lemma swap_name_eq: "0 \<le> j \<Longrightarrow> swap_name names j = swap_adj (nat j) names"
  by (simp add: swap_name_def swap_adj_def nat_Suc_int Let_def)

lemma map_list_swap_map:
  "0 \<le> j \<Longrightarrow> Suc (nat j) < n \<Longrightarrow>
   map_list n (swap_map map_arr j) = swap_adj (nat j) (map_list n map_arr)"
  by (cases map_arr)
     (simp_all add: map_list_def swap_map_def swap_adj_def nat_Suc_int Let_def list_eq_iff_nth_eq
        nth_list_update)

lemma swap_map_None_iff: "swap_map map_arr j = None \<longleftrightarrow> map_arr = None"
  by (cases map_arr) (simp_all add: swap_map_def Let_def)

lemma length_map_list_swap_map:
  "length (map_list n (swap_map map_arr j)) = length (map_list n map_arr)"
  by (cases map_arr) (simp_all add: map_list_def swap_map_def Let_def)

lemma zip_swap_adj:
  "length xs = length ys \<Longrightarrow> Suc j < length xs \<Longrightarrow>
   zip (swap_adj j xs) (swap_adj j ys) = swap_adj j (zip xs ys)"
  by (simp add: swap_adj_def zip_update)

lemma swap_value_append:
  "length A = j * sz \<Longrightarrow> length X = sz \<Longrightarrow> length Y = sz \<Longrightarrow> sz \<le> length tbuf \<Longrightarrow>
   swap_value sz tbuf (A @ X @ Y @ B) (int j) = (X @ drop sz tbuf, A @ Y @ X @ B)"
  by (simp add: swap_value_def HDmemcpy_def Let_def nat_Suc_int)

lemma enum_value_length:
  "length val = n * sz \<Longrightarrow> k < n \<Longrightarrow> length (enum_value sz val k) = sz"
proof -
  assume l: "length val = n * sz" and k: "k < n"
  have "Suc k * sz \<le> n * sz" by (rule mult_le_mono1) (use k in simp)
  then show ?thesis using l by (simp add: enum_value_def)
qed

lemma val_split:
  assumes l: "length val = n * sz" and j: "Suc j < n"
  shows "val = take (j * sz) val @ enum_value sz val j @ enum_value sz val (Suc j)
               @ drop (Suc (Suc j) * sz) val"
proof -
  have "val = take (j * sz) val @ drop (j * sz) val" by simp
  also have "drop (j * sz) val = take sz (drop (j * sz) val) @ drop sz (drop (j * sz) val)"
    by (simp only: append_take_drop_id)
  also have "drop sz (drop (j * sz) val) = drop (Suc j * sz) val"
    by (simp add: add.commute)
  also have "drop (Suc j * sz) val = take sz (drop (Suc j * sz) val) @ drop sz (drop (Suc j * sz) val)"
    by (simp only: append_take_drop_id)
  also have "drop sz (drop (Suc j * sz) val) = drop (Suc (Suc j) * sz) val"
    by (simp add: add.commute add.left_commute)
  finally show ?thesis by (simp add: enum_value_def)
qed

lemma enum_value_append_left:
  assumes "length A = j * sz" and "k < j"
  shows "enum_value sz (A @ R) k = enum_value sz A k"
proof -
  have "Suc k * sz \<le> j * sz" by (rule mult_le_mono1) (use assms(2) in simp)
  then show ?thesis using assms(1) by (simp add: enum_value_def)
qed

lemma enum_value_append_right:
  assumes "length A = j * sz" and "j \<le> k"
  shows "enum_value sz (A @ R) k = enum_value sz R (k - j)"
proof -
  have "j * sz \<le> k * sz" by (rule mult_le_mono1) (rule assms(2))
  moreover have "k * sz - j * sz = (k - j) * sz" by (simp add: diff_mult_distrib)
  ultimately show ?thesis using assms(1) by (simp add: enum_value_def)
qed

lemma enum_value_swapped:
  assumes A: "length A = j * sz" and X: "length X = sz" and Y: "length Y = sz"
  shows "enum_value sz (A @ Y @ X @ B) k =
         (if k = j then enum_value sz (A @ X @ Y @ B) (Suc j)
          else if k = Suc j then enum_value sz (A @ X @ Y @ B) j
          else enum_value sz (A @ X @ Y @ B) k)"
proof -
  have one: "\<And>P Q R. length P = sz \<Longrightarrow> enum_value sz (P @ Q) 0 = P"
    by (simp add: enum_value_def)
  have shift1: "\<And>P R m. length P = sz \<Longrightarrow> enum_value sz (P @ R) (Suc m) = enum_value sz R m"
    using enum_value_append_right[of _ 1 sz "Suc _"] by simp
  consider "k < j" | "k = j" | "k = Suc j" | "Suc j < k" by linarith
  then show ?thesis
  proof cases
    case 1
    then show ?thesis using enum_value_append_left[OF A] by simp
  next
    case 2
    have "enum_value sz (A @ Y @ X @ B) j = Y"
      using enum_value_append_right[OF A, of j] one[OF Y] by simp
    moreover have "enum_value sz (A @ X @ Y @ B) (Suc j) = Y"
      using enum_value_append_right[OF A, of "Suc j"] shift1[OF X] one[OF Y] by simp
    ultimately show ?thesis using 2 by simp
  next
    case 3
    have "enum_value sz (A @ Y @ X @ B) (Suc j) = X"
      using enum_value_append_right[OF A, of "Suc j"] shift1[OF Y] one[OF X] by simp
    moreover have "enum_value sz (A @ X @ Y @ B) j = X"
      using enum_value_append_right[OF A, of j] one[OF X] by simp
    ultimately show ?thesis using 3 by simp
  next
    case 4
    then obtain m where m: "k - j = Suc (Suc m)"
      by (metis Suc_diff_Suc diff_Suc_Suc less_imp_Suc_add add_diff_cancel_left' Suc_lessD)
    have "enum_value sz (A @ Y @ X @ B) k = enum_value sz B m"
      using enum_value_append_right[OF A, of k] 4 m shift1[OF Y] shift1[OF X] by simp
    moreover have "enum_value sz (A @ X @ Y @ B) k = enum_value sz B m"
      using enum_value_append_right[OF A, of k] 4 m shift1[OF Y] shift1[OF X] by simp
    ultimately show ?thesis using 4 by simp
  qed
qed

lemma swap_value_props:
  assumes l: "length val = n * sz" and j: "Suc j < n" and t: "sz \<le> length tbuf"
    and s: "swap_value sz tbuf val (int j) = (tbuf', val')"
  shows "length tbuf' = length tbuf" and "length val' = length val"
    and "enum_values sz n val' = swap_adj j (enum_values sz n val)"
proof -
  define A where "A = take (j * sz) val"
  define X where "X = enum_value sz val j"
  define Y where "Y = enum_value sz val (Suc j)"
  define B where "B = drop (Suc (Suc j) * sz) val"
  have v: "val = A @ X @ Y @ B"
    unfolding A_def X_def Y_def B_def by (rule val_split[OF l j])
  have "j * sz \<le> n * sz" by (rule mult_le_mono1) (use j in simp)
  then have A: "length A = j * sz" using l by (simp add: A_def)
  have X: "length X = sz" unfolding X_def by (rule enum_value_length[OF l]) (use j in simp)
  have Y: "length Y = sz" unfolding Y_def by (rule enum_value_length[OF l j])
  from s have r: "tbuf' = X @ drop sz tbuf" "val' = A @ Y @ X @ B"
    unfolding v using swap_value_append[OF A X Y t, of B] by simp_all
  show "length tbuf' = length tbuf" using r(1) X t by simp
  show "length val' = length val" using r(2) v by simp
  show "enum_values sz n val' = swap_adj j (enum_values sz n val)"
  proof (rule nth_equalityI)
    show "length (enum_values sz n val') = length (swap_adj j (enum_values sz n val))"
      by (simp add: enum_values_def)
  next
    fix k assume "k < length (enum_values sz n val')"
    then have k: "k < n" by (simp add: enum_values_def)
    have "enum_values sz n val' ! k = enum_value sz (A @ Y @ X @ B) k"
      using k r(2) by (simp add: enum_values_def)
    also have "\<dots> = (if k = j then enum_value sz val (Suc j)
          else if k = Suc j then enum_value sz val j
          else enum_value sz val k)"
      unfolding v by (rule enum_value_swapped[OF A X Y])
    also have "\<dots> = swap_adj j (enum_values sz n val) ! k"
      using k j by (simp add: nth_swap_adj enum_values_def)
    finally show "enum_values sz n val' ! k = swap_adj j (enum_values sz n val) ! k" .
  qed
qed

section \<open>The loops compute the bubble sort\<close>

lemma sort_value_compnd_inner_sim:
  "0 \<le> j \<Longrightarrow> i < int (length membs) \<Longrightarrow>
   length (map_list (length membs) map_arr) = length membs \<Longrightarrow>
   sort_value_compnd_inner j i (membs, map_arr, sw) = (membs', map_arr', sw') \<Longrightarrow>
   length membs' = length membs \<and>
   length (map_list (length membs) map_arr') = length membs \<and>
   (map_arr' = None \<longleftrightarrow> map_arr = None) \<and>
   bubble_pass (\<lambda>p. offset (fst p)) (nat j) (nat i) (zip membs (map_list (length membs) map_arr)) sw
     = (zip membs' (map_list (length membs) map_arr'), sw')"
proof (induction j i "(membs, map_arr, sw)" arbitrary: membs map_arr sw
    rule: sort_value_compnd_inner.induct)
  case (1 j i membs map_arr swapped)
  note j0 = "1.prems"(1) and il = "1.prems"(2) and ml = "1.prems"(3) and run = "1.prems"(4)
  let ?n = "length membs"
  let ?xs = "zip membs (map_list ?n map_arr)"
  show ?case
  proof (cases "j < i")
    case False
    then have "\<not> nat j < nat i" using j0 by simp
    with False run ml show ?thesis
      by (simp add: sort_value_compnd_inner.simps bubble_pass.simps[of _ "nat j"])
  next
    case lt: True
    then have nlt: "nat j < nat i" and sj: "Suc (nat j) < ?n" using j0 il by auto
    have nth: "?xs ! nat j = (membs ! nat j, map_list ?n map_arr ! nat j)"
      "?xs ! Suc (nat j) = (membs ! nat (j + 1), map_list ?n map_arr ! Suc (nat j))"
      using sj ml j0 by (simp_all add: nat_Suc_int)
    show ?thesis
    proof (cases "offset (membs ! nat j) > offset (membs ! nat (j + 1))")
      case True
      with lt run have r: "sort_value_compnd_inner (j + 1) i
          (swap_memb membs j, swap_map map_arr j, True) = (membs', map_arr', sw')"
        by (simp add: sort_value_compnd_inner.simps[of j])
      have l': "length (swap_memb membs j) = ?n" using j0 by (simp add: swap_memb_eq)
      have z: "zip (swap_memb membs j) (map_list ?n (swap_map map_arr j)) = swap_adj (nat j) ?xs"
        using j0 sj ml by (simp add: swap_memb_eq map_list_swap_map zip_swap_adj)
      have ih: "length membs' = ?n \<and> length (map_list ?n map_arr') = ?n \<and>
          (map_arr' = None \<longleftrightarrow> swap_map map_arr j = None) \<and>
          bubble_pass (\<lambda>p. offset (fst p)) (nat (j + 1)) (nat i) (swap_adj (nat j) ?xs) True
            = (zip membs' (map_list ?n map_arr'), sw')"
        using "1.hyps"(1)[OF lt True _ _ _ r] j0 il ml l'
        by (simp add: length_map_list_swap_map z)
      have "bubble_pass (\<lambda>p. offset (fst p)) (nat j) (nat i) ?xs swapped =
          bubble_pass (\<lambda>p. offset (fst p)) (Suc (nat j)) (nat i) (swap_adj (nat j) ?xs) True"
        using nlt True nth by (subst bubble_pass.simps) simp
      with ih j0 show ?thesis by (simp add: nat_Suc_int swap_map_None_iff)
    next
      case False
      with lt run have r: "sort_value_compnd_inner (j + 1) i (membs, map_arr, swapped)
          = (membs', map_arr', sw')"
        by (simp add: sort_value_compnd_inner.simps[of j])
      have ih: "length membs' = ?n \<and> length (map_list ?n map_arr') = ?n \<and>
          (map_arr' = None \<longleftrightarrow> map_arr = None) \<and>
          bubble_pass (\<lambda>p. offset (fst p)) (nat (j + 1)) (nat i) ?xs swapped
            = (zip membs' (map_list ?n map_arr'), sw')"
        using "1.hyps"(2)[OF lt False _ il ml r] j0 by simp
      have "bubble_pass (\<lambda>p. offset (fst p)) (nat j) (nat i) ?xs swapped =
          bubble_pass (\<lambda>p. offset (fst p)) (Suc (nat j)) (nat i) ?xs swapped"
        using nlt False nth by (subst bubble_pass.simps) simp
      with ih j0 show ?thesis by (simp add: nat_Suc_int)
    qed
  qed
qed

lemma sort_value_compnd_outer_sim:
  "i < int (length membs) \<Longrightarrow>
   length (map_list (length membs) map_arr) = length membs \<Longrightarrow>
   sort_value_compnd_outer i sw (membs, map_arr) = (membs', map_arr') \<Longrightarrow>
   length membs' = length membs \<and>
   length (map_list (length membs) map_arr') = length membs \<and>
   (map_arr' = None \<longleftrightarrow> map_arr = None) \<and>
   bubble_sort (\<lambda>p. offset (fst p)) (nat i) sw (zip membs (map_list (length membs) map_arr))
     = zip membs' (map_list (length membs) map_arr')"
proof (induction i sw "(membs, map_arr)" arbitrary: membs map_arr
    rule: sort_value_compnd_outer.induct)
  case (1 i swapped membs map_arr)
  note il = "1.prems"(1) and ml = "1.prems"(2) and run = "1.prems"(3)
  let ?n = "length membs"
  show ?case
  proof (cases "i > 0 \<and> swapped")
    case False
    then have e1: "sort_value_compnd_outer i swapped (membs, map_arr) = (membs, map_arr)"
      by (subst sort_value_compnd_outer.simps) auto
    from False have e2: "bubble_sort (\<lambda>p. offset (fst p)) (nat i) swapped
        (zip membs (map_list ?n map_arr)) = zip membs (map_list ?n map_arr)"
      by (subst bubble_sort.simps) auto
    from run ml show ?thesis unfolding e1 e2 by auto
  next
    case True
    obtain m1 a1 s1 where p: "sort_value_compnd_inner 0 i (membs, map_arr, False) = (m1, a1, s1)"
      by (cases "sort_value_compnd_inner 0 i (membs, map_arr, False)") auto
    from sort_value_compnd_inner_sim[OF _ il ml p]
    have q: "length m1 = ?n" "length (map_list ?n a1) = ?n" "a1 = None \<longleftrightarrow> map_arr = None"
      "bubble_pass (\<lambda>p. offset (fst p)) 0 (nat i) (zip membs (map_list ?n map_arr)) False
         = (zip m1 (map_list ?n a1), s1)"
      by simp_all
    from True run p have r: "sort_value_compnd_outer (i - 1) s1 (m1, a1) = (membs', map_arr')"
      by (simp add: sort_value_compnd_outer.simps[of i])
    have il': "i - 1 < int (length m1)" using il q(1) by simp
    have ml': "length (map_list (length m1) a1) = length m1" using q(1,2) by simp
    from "1.hyps"[OF True p[symmetric] refl il' ml' r] q(1)
    have ih: "length membs' = ?n" "length (map_list ?n map_arr') = ?n"
      "map_arr' = None \<longleftrightarrow> a1 = None"
      "bubble_sort (\<lambda>p. offset (fst p)) (nat (i - 1)) s1 (zip m1 (map_list ?n a1))
         = zip membs' (map_list ?n map_arr')"
      by simp_all
    have "bubble_sort (\<lambda>p. offset (fst p)) (nat i) swapped (zip membs (map_list ?n map_arr))
        = bubble_sort (\<lambda>p. offset (fst p)) (nat i - 1) s1 (zip m1 (map_list ?n a1))"
      using True q(4) by (subst bubble_sort.simps) simp
    moreover have "nat i - 1 = nat (i - 1)" by simp
    ultimately show ?thesis using ih q(3) by simp
  qed
qed
lemma sort_name_compnd_inner_sim:
  "0 \<le> j \<Longrightarrow> i < int (length membs) \<Longrightarrow>
   length (map_list (length membs) map_arr) = length membs \<Longrightarrow>
   sort_name_compnd_inner j i (membs, map_arr, sw) = (membs', map_arr', sw') \<Longrightarrow>
   length membs' = length membs \<and>
   length (map_list (length membs) map_arr') = length membs \<and>
   (map_arr' = None \<longleftrightarrow> map_arr = None) \<and>
   bubble_pass (\<lambda>p. c_str (name (fst p))) (nat j) (nat i) (zip membs (map_list (length membs) map_arr)) sw
     = (zip membs' (map_list (length membs) map_arr'), sw')"
proof (induction j i "(membs, map_arr, sw)" arbitrary: membs map_arr sw
    rule: sort_name_compnd_inner.induct)
  case (1 j i membs map_arr swapped)
  note j0 = "1.prems"(1) and il = "1.prems"(2) and ml = "1.prems"(3) and run = "1.prems"(4)
  let ?n = "length membs"
  let ?xs = "zip membs (map_list ?n map_arr)"
  show ?case
  proof (cases "j < i")
    case False
    then have "\<not> nat j < nat i" using j0 by simp
    with False run ml show ?thesis
      by (simp add: sort_name_compnd_inner.simps bubble_pass.simps[of _ "nat j"])
  next
    case lt: True
    then have nlt: "nat j < nat i" and sj: "Suc (nat j) < ?n" using j0 il by auto
    have nth: "?xs ! nat j = (membs ! nat j, map_list ?n map_arr ! nat j)"
      "?xs ! Suc (nat j) = (membs ! nat (j + 1), map_list ?n map_arr ! Suc (nat j))"
      using sj ml j0 by (simp_all add: nat_Suc_int)
    show ?thesis
    proof (cases "HDstrcmp (name (membs ! nat j)) (name (membs ! nat (j + 1))) > 0")
      case True
      with lt run have r: "sort_name_compnd_inner (j + 1) i
          (swap_memb membs j, swap_map map_arr j, True) = (membs', map_arr', sw')"
        by (simp add: sort_name_compnd_inner.simps[of j])
      have l': "length (swap_memb membs j) = ?n" using j0 by (simp add: swap_memb_eq)
      have z: "zip (swap_memb membs j) (map_list ?n (swap_map map_arr j)) = swap_adj (nat j) ?xs"
        using j0 sj ml by (simp add: swap_memb_eq map_list_swap_map zip_swap_adj)
      have ih: "length membs' = ?n \<and> length (map_list ?n map_arr') = ?n \<and>
          (map_arr' = None \<longleftrightarrow> swap_map map_arr j = None) \<and>
          bubble_pass (\<lambda>p. c_str (name (fst p))) (nat (j + 1)) (nat i) (swap_adj (nat j) ?xs) True
            = (zip membs' (map_list ?n map_arr'), sw')"
        using "1.hyps"(1)[OF lt True _ _ _ r] j0 il ml l'
        by (simp add: length_map_list_swap_map z)
      have "bubble_pass (\<lambda>p. c_str (name (fst p))) (nat j) (nat i) ?xs swapped =
          bubble_pass (\<lambda>p. c_str (name (fst p))) (Suc (nat j)) (nat i) (swap_adj (nat j) ?xs) True"
        using nlt True nth by (subst bubble_pass.simps) (simp add: HDstrcmp_pos_iff)
      with ih j0 show ?thesis by (simp add: nat_Suc_int swap_map_None_iff)
    next
      case False
      with lt run have r: "sort_name_compnd_inner (j + 1) i (membs, map_arr, swapped)
          = (membs', map_arr', sw')"
        by (simp add: sort_name_compnd_inner.simps[of j])
      have ih: "length membs' = ?n \<and> length (map_list ?n map_arr') = ?n \<and>
          (map_arr' = None \<longleftrightarrow> map_arr = None) \<and>
          bubble_pass (\<lambda>p. c_str (name (fst p))) (nat (j + 1)) (nat i) ?xs swapped
            = (zip membs' (map_list ?n map_arr'), sw')"
        using "1.hyps"(2)[OF lt False _ il ml r] j0 by simp
      have "bubble_pass (\<lambda>p. c_str (name (fst p))) (nat j) (nat i) ?xs swapped =
          bubble_pass (\<lambda>p. c_str (name (fst p))) (Suc (nat j)) (nat i) ?xs swapped"
        using nlt False nth by (subst bubble_pass.simps) (simp add: HDstrcmp_pos_iff)
      with ih j0 show ?thesis by (simp add: nat_Suc_int)
    qed
  qed
qed

lemma sort_name_compnd_outer_sim:
  "i < int (length membs) \<Longrightarrow>
   length (map_list (length membs) map_arr) = length membs \<Longrightarrow>
   sort_name_compnd_outer i sw (membs, map_arr) = (membs', map_arr') \<Longrightarrow>
   length membs' = length membs \<and>
   length (map_list (length membs) map_arr') = length membs \<and>
   (map_arr' = None \<longleftrightarrow> map_arr = None) \<and>
   bubble_sort (\<lambda>p. c_str (name (fst p))) (nat i) sw (zip membs (map_list (length membs) map_arr))
     = zip membs' (map_list (length membs) map_arr')"
proof (induction i sw "(membs, map_arr)" arbitrary: membs map_arr
    rule: sort_name_compnd_outer.induct)
  case (1 i swapped membs map_arr)
  note il = "1.prems"(1) and ml = "1.prems"(2) and run = "1.prems"(3)
  let ?n = "length membs"
  show ?case
  proof (cases "i > 0 \<and> swapped")
    case False
    then have e1: "sort_name_compnd_outer i swapped (membs, map_arr) = (membs, map_arr)"
      by (subst sort_name_compnd_outer.simps) auto
    from False have e2: "bubble_sort (\<lambda>p. c_str (name (fst p))) (nat i) swapped
        (zip membs (map_list ?n map_arr)) = zip membs (map_list ?n map_arr)"
      by (subst bubble_sort.simps) auto
    from run ml show ?thesis unfolding e1 e2 by auto
  next
    case True
    obtain m1 a1 s1 where p: "sort_name_compnd_inner 0 i (membs, map_arr, False) = (m1, a1, s1)"
      by (cases "sort_name_compnd_inner 0 i (membs, map_arr, False)") auto
    from sort_name_compnd_inner_sim[OF _ il ml p]
    have q: "length m1 = ?n" "length (map_list ?n a1) = ?n" "a1 = None \<longleftrightarrow> map_arr = None"
      "bubble_pass (\<lambda>p. c_str (name (fst p))) 0 (nat i) (zip membs (map_list ?n map_arr)) False
         = (zip m1 (map_list ?n a1), s1)"
      by simp_all
    from True run p have r: "sort_name_compnd_outer (i - 1) s1 (m1, a1) = (membs', map_arr')"
      by (simp add: sort_name_compnd_outer.simps[of i])
    have il': "i - 1 < int (length m1)" using il q(1) by simp
    have ml': "length (map_list (length m1) a1) = length m1" using q(1,2) by simp
    from "1.hyps"[OF True p[symmetric] refl il' ml' r] q(1)
    have ih: "length membs' = ?n" "length (map_list ?n map_arr') = ?n"
      "map_arr' = None \<longleftrightarrow> a1 = None"
      "bubble_sort (\<lambda>p. c_str (name (fst p))) (nat (i - 1)) s1 (zip m1 (map_list ?n a1))
         = zip membs' (map_list ?n map_arr')"
      by simp_all
    have "bubble_sort (\<lambda>p. c_str (name (fst p))) (nat i) swapped (zip membs (map_list ?n map_arr))
        = bubble_sort (\<lambda>p. c_str (name (fst p))) (nat i - 1) s1 (zip m1 (map_list ?n a1))"
      using True q(4) by (subst bubble_sort.simps) simp
    moreover have "nat i - 1 = nat (i - 1)" by simp
    ultimately show ?thesis using ih q(3) by simp
  qed
qed

lemma HDmemcmp_enum_value:
  assumes l: "length val = n * sz" and j: "Suc j < n"
  shows "0 < HDmemcmp (drop (j * sz) val) (drop (Suc j * sz) val) sz
           \<longleftrightarrow> enum_value sz val (Suc j) < enum_value sz val j"
    and "HDmemcmp (drop (j * sz) val) (drop (Suc j * sz) val) sz < 0
           \<longleftrightarrow> enum_value sz val j < enum_value sz val (Suc j)"
proof -
  have "Suc (Suc j) * sz \<le> n * sz" by (rule mult_le_mono1) (use j in simp)
  then have a: "sz \<le> length (drop (j * sz) val)" and b: "sz \<le> length (drop (Suc j * sz) val)"
    using l by simp_all
  show "0 < HDmemcmp (drop (j * sz) val) (drop (Suc j * sz) val) sz
           \<longleftrightarrow> enum_value sz val (Suc j) < enum_value sz val j"
    unfolding enum_value_def by (rule HDmemcmp_pos_iff[OF a b])
  show "HDmemcmp (drop (j * sz) val) (drop (Suc j * sz) val) sz < 0
           \<longleftrightarrow> enum_value sz val j < enum_value sz val (Suc j)"
    unfolding enum_value_def by (rule HDmemcmp_neg_iff[OF a b])
qed

lemma sort_value_enum_inner_sim:
  "0 \<le> j \<Longrightarrow> i < int (length names) \<Longrightarrow>
   length val = length names * sz \<Longrightarrow> sz \<le> length tbuf \<Longrightarrow>
   length (map_list (length names) map_arr) = length names \<Longrightarrow>
   sort_value_enum_inner sz j i (names, val, tbuf, map_arr, sw)
     = (names', val', tbuf', map_arr', sw') \<Longrightarrow>
   length names' = length names \<and> length val' = length val \<and>
   length tbuf' = length tbuf \<and>
   length (map_list (length names) map_arr') = length names \<and>
   (map_arr' = None \<longleftrightarrow> map_arr = None) \<and>
   bubble_pass (\<lambda>p. snd (fst p)) (nat j) (nat i)
     (zip (zip names (enum_values sz (length names) val)) (map_list (length names) map_arr)) sw
     = (zip (zip names' (enum_values sz (length names) val')) (map_list (length names) map_arr'),
        sw')"
proof (induction sz j i "(names, val, tbuf, map_arr, sw)" arbitrary: names val tbuf map_arr sw
    rule: sort_value_enum_inner.induct)
  case (1 sz j i names val tbuf map_arr swapped)
  note j0 = "1.prems"(1) and il = "1.prems"(2) and vl = "1.prems"(3) and tl = "1.prems"(4)
    and ml = "1.prems"(5) and run = "1.prems"(6)
  let ?n = "length names"
  let ?vs = "enum_values sz ?n val"
  let ?xs = "zip (zip names ?vs) (map_list ?n map_arr)"
  have vsl: "length ?vs = ?n" by (simp add: enum_values_def)
  show ?case
  proof (cases "j < i")
    case False
    then have "\<not> nat j < nat i" using j0 by simp
    with False run ml show ?thesis
      by (simp add: sort_value_enum_inner.simps bubble_pass.simps[of _ "nat j"])
  next
    case lt: True
    then have nlt: "nat j < nat i" and sj: "Suc (nat j) < ?n" using j0 il by auto
    have nth: "?xs ! nat j = ((names ! nat j, enum_value sz val (nat j)), map_list ?n map_arr ! nat j)"
      "?xs ! Suc (nat j) = ((names ! nat (j + 1), enum_value sz val (Suc (nat j))),
          map_list ?n map_arr ! Suc (nat j))"
      using sj ml j0 by (simp_all add: nat_Suc_int enum_values_def)
    have cmp: "HDmemcmp (drop (nat j * sz) val) (drop (nat (j + 1) * sz) val) sz > 0 \<longleftrightarrow> enum_value sz val (Suc (nat j)) < enum_value sz val (nat j)"
      using HDmemcmp_enum_value(1)[OF vl sj] j0 by (simp add: nat_Suc_int)
    show ?thesis
    proof (cases "HDmemcmp (drop (nat j * sz) val) (drop (nat (j + 1) * sz) val) sz > 0")
      case True
      obtain t1 v1 where sv: "swap_value sz tbuf val j = (t1, v1)"
        by (cases "swap_value sz tbuf val j") auto
      from sv j0 have sv': "swap_value sz tbuf val (int (nat j)) = (t1, v1)" by simp
      note sp = swap_value_props[OF vl sj tl sv']
      from lt True run sv have r: "sort_value_enum_inner sz (j + 1) i
          (swap_name names j, v1, t1, swap_map map_arr j, True)
          = (names', val', tbuf', map_arr', sw')"
        by (simp add: sort_value_enum_inner.simps[of sz j])
      have l': "length (swap_name names j) = ?n" using j0 by (simp add: swap_name_eq)
      have z: "zip (zip (swap_name names j) (enum_values sz ?n v1))
          (map_list ?n (swap_map map_arr j)) = swap_adj (nat j) ?xs"
        using j0 sj ml vsl sp(3) by (simp add: swap_name_eq map_list_swap_map zip_swap_adj)
      have ih: "length names' = ?n \<and> length val' = length val \<and>
          length tbuf' = length tbuf \<and>
          length (map_list ?n map_arr') = ?n \<and>
          (map_arr' = None \<longleftrightarrow> swap_map map_arr j = None) \<and>
          bubble_pass (\<lambda>p. snd (fst p)) (nat (j + 1)) (nat i) (swap_adj (nat j) ?xs) True
            = (zip (zip names' (enum_values sz ?n val')) (map_list ?n map_arr'), sw')"
        using "1.hyps"(1)[OF lt True sv[symmetric] _ _ _ _ _ r] j0 il ml l' vl tl sp(1,2)
        by (simp add: length_map_list_swap_map z)
      have "bubble_pass (\<lambda>p. snd (fst p)) (nat j) (nat i) ?xs swapped =
          bubble_pass (\<lambda>p. snd (fst p)) (Suc (nat j)) (nat i) (swap_adj (nat j) ?xs) True"
        using nlt True nth cmp by (subst bubble_pass.simps) simp
      with ih j0 show ?thesis by (simp add: nat_Suc_int swap_map_None_iff)
    next
      case False
      with lt run have r: "sort_value_enum_inner sz (j + 1) i (names, val, tbuf, map_arr, swapped)
          = (names', val', tbuf', map_arr', sw')"
        by (simp add: sort_value_enum_inner.simps[of sz j])
      have ih: "length names' = ?n \<and> length val' = length val \<and>
          length tbuf' = length tbuf \<and>
          length (map_list ?n map_arr') = ?n \<and>
          (map_arr' = None \<longleftrightarrow> map_arr = None) \<and>
          bubble_pass (\<lambda>p. snd (fst p)) (nat (j + 1)) (nat i) ?xs swapped
            = (zip (zip names' (enum_values sz ?n val')) (map_list ?n map_arr'), sw')"
        using "1.hyps"(2)[OF lt False _ il vl tl ml r] j0 by simp
      have "bubble_pass (\<lambda>p. snd (fst p)) (nat j) (nat i) ?xs swapped =
          bubble_pass (\<lambda>p. snd (fst p)) (Suc (nat j)) (nat i) ?xs swapped"
        using nlt False nth cmp by (subst bubble_pass.simps) simp
      with ih j0 show ?thesis by (simp add: nat_Suc_int)
    qed
  qed
qed

lemma sort_value_enum_outer_sim:
  "i < int (length names) \<Longrightarrow>
   length val = length names * sz \<Longrightarrow> sz \<le> length tbuf \<Longrightarrow>
   length (map_list (length names) map_arr) = length names \<Longrightarrow>
   sort_value_enum_outer sz i sw (names, val, tbuf, map_arr)
     = (names', val', tbuf', map_arr') \<Longrightarrow>
   length names' = length names \<and> length val' = length val \<and>
   length (map_list (length names) map_arr') = length names \<and>
   (map_arr' = None \<longleftrightarrow> map_arr = None) \<and>
   bubble_sort (\<lambda>p. snd (fst p)) (nat i) sw
     (zip (zip names (enum_values sz (length names) val)) (map_list (length names) map_arr))
     = zip (zip names' (enum_values sz (length names) val')) (map_list (length names) map_arr')"
proof (induction sz i sw "(names, val, tbuf, map_arr)" arbitrary: names val tbuf map_arr
    rule: sort_value_enum_outer.induct)
  case (1 sz i swapped names val tbuf map_arr)
  note il = "1.prems"(1) and vl = "1.prems"(2) and tl = "1.prems"(3)
    and ml = "1.prems"(4) and run = "1.prems"(5)
  let ?n = "length names"
  let ?xs = "zip (zip names (enum_values sz ?n val)) (map_list ?n map_arr)"
  show ?case
  proof (cases "i > 0 \<and> swapped")
    case False
    then have e1: "sort_value_enum_outer sz i swapped (names, val, tbuf, map_arr)
        = (names, val, tbuf, map_arr)"
      by (subst sort_value_enum_outer.simps) auto
    from False have e2: "bubble_sort (\<lambda>p. snd (fst p)) (nat i) swapped ?xs = ?xs"
      by (subst bubble_sort.simps) auto
    from run ml show ?thesis unfolding e1 e2 by auto
  next
    case True
    obtain n1 v1 t1 a1 s1 where
      p: "sort_value_enum_inner sz 0 i (names, val, tbuf, map_arr, False) = (n1, v1, t1, a1, s1)"
      by (cases "sort_value_enum_inner sz 0 i (names, val, tbuf, map_arr, False)") auto
    from sort_value_enum_inner_sim[OF _ il vl tl ml p]
    have q: "length n1 = ?n" "length v1 = length val" "length t1 = length tbuf"
      "length (map_list ?n a1) = ?n" "a1 = None \<longleftrightarrow> map_arr = None"
      "bubble_pass (\<lambda>p. snd (fst p)) 0 (nat i) ?xs False
         = (zip (zip n1 (enum_values sz ?n v1)) (map_list ?n a1), s1)"
      by simp_all
    from True run p have r: "sort_value_enum_outer sz (i - 1) s1 (n1, v1, t1, a1)
        = (names', val', tbuf', map_arr')"
      by (simp add: sort_value_enum_outer.simps[of sz i])
    have il': "i - 1 < int (length n1)" using il q(1) by simp
    have vl': "length v1 = length n1 * sz" using vl q(1,2) by simp
    have tl': "sz \<le> length t1" using tl q(3) by simp
    have ml': "length (map_list (length n1) a1) = length n1" using q(1,4) by simp
    from "1.hyps"[OF True p[symmetric] refl refl refl il' vl' tl' ml' r] q(1,2)
    have ih: "length names' = ?n" "length val' = length val"
      "length (map_list ?n map_arr') = ?n"
      "map_arr' = None \<longleftrightarrow> a1 = None"
      "bubble_sort (\<lambda>p. snd (fst p)) (nat (i - 1)) s1 (zip (zip n1 (enum_values sz ?n v1)) (map_list ?n a1))
         = zip (zip names' (enum_values sz ?n val')) (map_list ?n map_arr')"
      by simp_all
    have "bubble_sort (\<lambda>p. snd (fst p)) (nat i) swapped ?xs
        = bubble_sort (\<lambda>p. snd (fst p)) (nat i - 1) s1 (zip (zip n1 (enum_values sz ?n v1)) (map_list ?n a1))"
      using True q(6) by (subst bubble_sort.simps) simp
    moreover have "nat i - 1 = nat (i - 1)" by simp
    ultimately show ?thesis using ih q(5) by simp
  qed
qed

lemma sort_name_enum_inner_sim:
  "0 \<le> j \<Longrightarrow> i < int (length names) \<Longrightarrow>
   length val = length names * sz \<Longrightarrow> sz \<le> length tbuf \<Longrightarrow>
   length (map_list (length names) map_arr) = length names \<Longrightarrow>
   sort_name_enum_inner sz j i (names, val, tbuf, map_arr, sw)
     = (names', val', tbuf', map_arr', sw') \<Longrightarrow>
   length names' = length names \<and> length val' = length val \<and>
   length tbuf' = length tbuf \<and>
   length (map_list (length names) map_arr') = length names \<and>
   (map_arr' = None \<longleftrightarrow> map_arr = None) \<and>
   bubble_pass (\<lambda>p. c_str (fst (fst p))) (nat j) (nat i)
     (zip (zip names (enum_values sz (length names) val)) (map_list (length names) map_arr)) sw
     = (zip (zip names' (enum_values sz (length names) val')) (map_list (length names) map_arr'),
        sw')"
proof (induction sz j i "(names, val, tbuf, map_arr, sw)" arbitrary: names val tbuf map_arr sw
    rule: sort_name_enum_inner.induct)
  case (1 sz j i names val tbuf map_arr swapped)
  note j0 = "1.prems"(1) and il = "1.prems"(2) and vl = "1.prems"(3) and tl = "1.prems"(4)
    and ml = "1.prems"(5) and run = "1.prems"(6)
  let ?n = "length names"
  let ?vs = "enum_values sz ?n val"
  let ?xs = "zip (zip names ?vs) (map_list ?n map_arr)"
  have vsl: "length ?vs = ?n" by (simp add: enum_values_def)
  show ?case
  proof (cases "j < i")
    case False
    then have "\<not> nat j < nat i" using j0 by simp
    with False run ml show ?thesis
      by (simp add: sort_name_enum_inner.simps bubble_pass.simps[of _ "nat j"])
  next
    case lt: True
    then have nlt: "nat j < nat i" and sj: "Suc (nat j) < ?n" using j0 il by auto
    have nth: "?xs ! nat j = ((names ! nat j, enum_value sz val (nat j)), map_list ?n map_arr ! nat j)"
      "?xs ! Suc (nat j) = ((names ! nat (j + 1), enum_value sz val (Suc (nat j))),
          map_list ?n map_arr ! Suc (nat j))"
      using sj ml j0 by (simp_all add: nat_Suc_int enum_values_def)
    have cmp: "HDstrcmp (names ! nat j) (names ! nat (j + 1)) > 0 \<longleftrightarrow> c_str (names ! nat (j + 1)) < c_str (names ! nat j)"
      by (rule HDstrcmp_pos_iff)
    show ?thesis
    proof (cases "HDstrcmp (names ! nat j) (names ! nat (j + 1)) > 0")
      case True
      obtain t1 v1 where sv: "swap_value sz tbuf val j = (t1, v1)"
        by (cases "swap_value sz tbuf val j") auto
      from sv j0 have sv': "swap_value sz tbuf val (int (nat j)) = (t1, v1)" by simp
      note sp = swap_value_props[OF vl sj tl sv']
      from lt True run sv have r: "sort_name_enum_inner sz (j + 1) i
          (swap_name names j, v1, t1, swap_map map_arr j, True)
          = (names', val', tbuf', map_arr', sw')"
        by (simp add: sort_name_enum_inner.simps[of sz j])
      have l': "length (swap_name names j) = ?n" using j0 by (simp add: swap_name_eq)
      have z: "zip (zip (swap_name names j) (enum_values sz ?n v1))
          (map_list ?n (swap_map map_arr j)) = swap_adj (nat j) ?xs"
        using j0 sj ml vsl sp(3) by (simp add: swap_name_eq map_list_swap_map zip_swap_adj)
      have ih: "length names' = ?n \<and> length val' = length val \<and>
          length tbuf' = length tbuf \<and>
          length (map_list ?n map_arr') = ?n \<and>
          (map_arr' = None \<longleftrightarrow> swap_map map_arr j = None) \<and>
          bubble_pass (\<lambda>p. c_str (fst (fst p))) (nat (j + 1)) (nat i) (swap_adj (nat j) ?xs) True
            = (zip (zip names' (enum_values sz ?n val')) (map_list ?n map_arr'), sw')"
        using "1.hyps"(1)[OF lt True sv[symmetric] _ _ _ _ _ r] j0 il ml l' vl tl sp(1,2)
        by (simp add: length_map_list_swap_map z)
      have "bubble_pass (\<lambda>p. c_str (fst (fst p))) (nat j) (nat i) ?xs swapped =
          bubble_pass (\<lambda>p. c_str (fst (fst p))) (Suc (nat j)) (nat i) (swap_adj (nat j) ?xs) True"
        using nlt True nth cmp by (subst bubble_pass.simps) simp
      with ih j0 show ?thesis by (simp add: nat_Suc_int swap_map_None_iff)
    next
      case False
      with lt run have r: "sort_name_enum_inner sz (j + 1) i (names, val, tbuf, map_arr, swapped)
          = (names', val', tbuf', map_arr', sw')"
        by (simp add: sort_name_enum_inner.simps[of sz j])
      have ih: "length names' = ?n \<and> length val' = length val \<and>
          length tbuf' = length tbuf \<and>
          length (map_list ?n map_arr') = ?n \<and>
          (map_arr' = None \<longleftrightarrow> map_arr = None) \<and>
          bubble_pass (\<lambda>p. c_str (fst (fst p))) (nat (j + 1)) (nat i) ?xs swapped
            = (zip (zip names' (enum_values sz ?n val')) (map_list ?n map_arr'), sw')"
        using "1.hyps"(2)[OF lt False _ il vl tl ml r] j0 by simp
      have "bubble_pass (\<lambda>p. c_str (fst (fst p))) (nat j) (nat i) ?xs swapped =
          bubble_pass (\<lambda>p. c_str (fst (fst p))) (Suc (nat j)) (nat i) ?xs swapped"
        using nlt False nth cmp by (subst bubble_pass.simps) simp
      with ih j0 show ?thesis by (simp add: nat_Suc_int)
    qed
  qed
qed

lemma sort_name_enum_outer_sim:
  "i < int (length names) \<Longrightarrow>
   length val = length names * sz \<Longrightarrow> sz \<le> length tbuf \<Longrightarrow>
   length (map_list (length names) map_arr) = length names \<Longrightarrow>
   sort_name_enum_outer sz i sw (names, val, tbuf, map_arr)
     = (names', val', tbuf', map_arr') \<Longrightarrow>
   length names' = length names \<and> length val' = length val \<and>
   length (map_list (length names) map_arr') = length names \<and>
   (map_arr' = None \<longleftrightarrow> map_arr = None) \<and>
   bubble_sort (\<lambda>p. c_str (fst (fst p))) (nat i) sw
     (zip (zip names (enum_values sz (length names) val)) (map_list (length names) map_arr))
     = zip (zip names' (enum_values sz (length names) val')) (map_list (length names) map_arr')"
proof (induction sz i sw "(names, val, tbuf, map_arr)" arbitrary: names val tbuf map_arr
    rule: sort_name_enum_outer.induct)
  case (1 sz i swapped names val tbuf map_arr)
  note il = "1.prems"(1) and vl = "1.prems"(2) and tl = "1.prems"(3)
    and ml = "1.prems"(4) and run = "1.prems"(5)
  let ?n = "length names"
  let ?xs = "zip (zip names (enum_values sz ?n val)) (map_list ?n map_arr)"
  show ?case
  proof (cases "i > 0 \<and> swapped")
    case False
    then have e1: "sort_name_enum_outer sz i swapped (names, val, tbuf, map_arr)
        = (names, val, tbuf, map_arr)"
      by (subst sort_name_enum_outer.simps) auto
    from False have e2: "bubble_sort (\<lambda>p. c_str (fst (fst p))) (nat i) swapped ?xs = ?xs"
      by (subst bubble_sort.simps) auto
    from run ml show ?thesis unfolding e1 e2 by auto
  next
    case True
    obtain n1 v1 t1 a1 s1 where
      p: "sort_name_enum_inner sz 0 i (names, val, tbuf, map_arr, False) = (n1, v1, t1, a1, s1)"
      by (cases "sort_name_enum_inner sz 0 i (names, val, tbuf, map_arr, False)") auto
    from sort_name_enum_inner_sim[OF _ il vl tl ml p]
    have q: "length n1 = ?n" "length v1 = length val" "length t1 = length tbuf"
      "length (map_list ?n a1) = ?n" "a1 = None \<longleftrightarrow> map_arr = None"
      "bubble_pass (\<lambda>p. c_str (fst (fst p))) 0 (nat i) ?xs False
         = (zip (zip n1 (enum_values sz ?n v1)) (map_list ?n a1), s1)"
      by simp_all
    from True run p have r: "sort_name_enum_outer sz (i - 1) s1 (n1, v1, t1, a1)
        = (names', val', tbuf', map_arr')"
      by (simp add: sort_name_enum_outer.simps[of sz i])
    have il': "i - 1 < int (length n1)" using il q(1) by simp
    have vl': "length v1 = length n1 * sz" using vl q(1,2) by simp
    have tl': "sz \<le> length t1" using tl q(3) by simp
    have ml': "length (map_list (length n1) a1) = length n1" using q(1,4) by simp
    from "1.hyps"[OF True p[symmetric] refl refl refl il' vl' tl' ml' r] q(1,2)
    have ih: "length names' = ?n" "length val' = length val"
      "length (map_list ?n map_arr') = ?n"
      "map_arr' = None \<longleftrightarrow> a1 = None"
      "bubble_sort (\<lambda>p. c_str (fst (fst p))) (nat (i - 1)) s1 (zip (zip n1 (enum_values sz ?n v1)) (map_list ?n a1))
         = zip (zip names' (enum_values sz ?n val')) (map_list ?n map_arr')"
      by simp_all
    have "bubble_sort (\<lambda>p. c_str (fst (fst p))) (nat i) swapped ?xs
        = bubble_sort (\<lambda>p. c_str (fst (fst p))) (nat i - 1) s1 (zip (zip n1 (enum_values sz ?n v1)) (map_list ?n a1))"
      using True q(6) by (subst bubble_sort.simps) simp
    moreover have "nat i - 1 = nat (i - 1)" by simp
    ultimately show ?thesis using ih q(5) by simp
  qed
qed

section \<open>What a sort does to a descriptor\<close>

lemma map_fst_zip_eq: "length xs = length ys \<Longrightarrow> map (\<lambda>p. f (fst p)) (zip xs ys) = map f xs"
proof -
  assume l: "length xs = length ys"
  have "map (\<lambda>p. f (fst p)) (zip xs ys) = map f (map fst (zip xs ys))" by simp
  also have "\<dots> = map f xs" using l by simp
  finally show ?thesis .
qed

lemma length_map_list_ok:
  "(case map_arr of None \<Rightarrow> True | Some m \<Rightarrow> length m = n) \<Longrightarrow> length (map_list n map_arr) = n"
  by (cases map_arr) (simp_all add: map_list_def)

lemma compnd_value_run:
  assumes run: "sort_value_compnd_outer (int (length membs) - 1) True (membs, map_arr)
      = (membs', map_arr')"
    and ml: "length (map_list (length membs) map_arr) = length membs"
  shows "length membs' = length membs"
    and "map_arr' = None \<longleftrightarrow> map_arr = None"
    and "length (map_list (length membs) map_arr') = length membs"
    and "sorted (map offset membs')"
    and "mset (zip membs' (map_list (length membs) map_arr'))
         = mset (zip membs (map_list (length membs) map_arr))"
proof -
  let ?n = "length membs"
  let ?xs = "zip membs (map_list ?n map_arr)"
  let ?xs' = "zip membs' (map_list ?n map_arr')"
  have il: "int ?n - 1 < int ?n" by simp
  from sort_value_compnd_outer_sim[OF il ml run]
  have s: "length membs' = ?n" "length (map_list ?n map_arr') = ?n"
    "map_arr' = None \<longleftrightarrow> map_arr = None"
    "bubble_sort (\<lambda>p. offset (fst p)) (nat (int ?n - 1)) True ?xs = ?xs'"
    by simp_all
  have n1: "nat (int ?n - 1) = length ?xs - 1" using ml by simp
  show "length membs' = ?n" "map_arr' = None \<longleftrightarrow> map_arr = None"
    "length (map_list ?n map_arr') = ?n" by (rule s)+
  have "sorted (map (\<lambda>p. offset (fst p)) ?xs')"
    using bubble_sort_sorted[of "\<lambda>p. offset (fst p)" ?xs] s(4) n1 by simp
  then show "sorted (map offset membs')"
    using s(1,2) by (simp add: map_fst_zip_eq)
  show "mset ?xs' = mset ?xs"
    using bubble_sort_mset_top[of "\<lambda>p. offset (fst p)" ?xs] s(4) n1 by simp
qed

lemma compnd_name_run:
  assumes run: "sort_name_compnd_outer (int (length membs) - 1) True (membs, map_arr)
      = (membs', map_arr')"
    and ml: "length (map_list (length membs) map_arr) = length membs"
  shows "length membs' = length membs"
    and "map_arr' = None \<longleftrightarrow> map_arr = None"
    and "length (map_list (length membs) map_arr') = length membs"
    and "sorted (map (\<lambda>m. c_str (name m)) membs')"
    and "mset (zip membs' (map_list (length membs) map_arr'))
         = mset (zip membs (map_list (length membs) map_arr))"
proof -
  let ?n = "length membs"
  let ?xs = "zip membs (map_list ?n map_arr)"
  let ?xs' = "zip membs' (map_list ?n map_arr')"
  have il: "int ?n - 1 < int ?n" by simp
  from sort_name_compnd_outer_sim[OF il ml run]
  have s: "length membs' = ?n" "length (map_list ?n map_arr') = ?n"
    "map_arr' = None \<longleftrightarrow> map_arr = None"
    "bubble_sort (\<lambda>p. c_str (name (fst p))) (nat (int ?n - 1)) True ?xs = ?xs'"
    by simp_all
  have n1: "nat (int ?n - 1) = length ?xs - 1" using ml by simp
  show "length membs' = ?n" "map_arr' = None \<longleftrightarrow> map_arr = None"
    "length (map_list ?n map_arr') = ?n" by (rule s)+
  have "sorted (map (\<lambda>p. c_str (name (fst p))) ?xs')"
    using bubble_sort_sorted[of "\<lambda>p. c_str (name (fst p))" ?xs] s(4) n1 by simp
  then show "sorted (map (\<lambda>m. c_str (name m)) membs')"
    using s(1,2) map_fst_zip_eq[of membs' "map_list ?n map_arr'" "\<lambda>m. c_str (name m)"] by simp
  show "mset ?xs' = mset ?xs"
    using bubble_sort_mset_top[of "\<lambda>p. c_str (name (fst p))" ?xs] s(4) n1 by simp
qed

lemma enum_value_run:
  assumes run: "sort_value_enum_outer sz (int (length names) - 1) True (names, val, tbuf, map_arr)
      = (names', val', tbuf', map_arr')"
    and vl: "length val = length names * sz" and tl: "sz \<le> length tbuf"
    and ml: "length (map_list (length names) map_arr) = length names"
  shows "length names' = length names"
    and "length val' = length val"
    and "map_arr' = None \<longleftrightarrow> map_arr = None"
    and "length (map_list (length names) map_arr') = length names"
    and "sorted (enum_values sz (length names) val')"
    and "mset (zip (zip names' (enum_values sz (length names) val'))
                 (map_list (length names) map_arr'))
         = mset (zip (zip names (enum_values sz (length names) val))
                 (map_list (length names) map_arr))"
proof -
  let ?n = "length names"
  let ?xs = "zip (zip names (enum_values sz ?n val)) (map_list ?n map_arr)"
  let ?xs' = "zip (zip names' (enum_values sz ?n val')) (map_list ?n map_arr')"
  have il: "int ?n - 1 < int ?n" by simp
  from sort_value_enum_outer_sim[OF il vl tl ml run]
  have s: "length names' = ?n" "length val' = length val" "length (map_list ?n map_arr') = ?n"
    "map_arr' = None \<longleftrightarrow> map_arr = None"
    "bubble_sort (\<lambda>p. snd (fst p)) (nat (int ?n - 1)) True ?xs = ?xs'"
    by simp_all
  have n1: "nat (int ?n - 1) = length ?xs - 1" using ml by (simp add: enum_values_def)
  show "length names' = ?n" "length val' = length val" "map_arr' = None \<longleftrightarrow> map_arr = None"
    "length (map_list ?n map_arr') = ?n" by (rule s)+
  have "sorted (map (\<lambda>p. snd (fst p)) ?xs')"
    using bubble_sort_sorted[of "\<lambda>p. snd (fst p)" ?xs] s(5) n1 by simp
  moreover have "map (\<lambda>p. snd (fst p)) ?xs' = map snd (zip names' (enum_values sz ?n val'))"
    using s(1,3) map_fst_zip_eq[of "zip names' (enum_values sz ?n val')" "map_list ?n map_arr'" snd]
    by (simp add: enum_values_def)
  moreover have "map snd (zip names' (enum_values sz ?n val')) = enum_values sz ?n val'"
    using s(1) by (simp add: enum_values_def)
  ultimately show "sorted (enum_values sz ?n val')" by simp
  show "mset ?xs' = mset ?xs"
    using bubble_sort_mset_top[of "\<lambda>p. snd (fst p)" ?xs] s(5) n1 by simp
qed

lemma enum_name_run:
  assumes run: "sort_name_enum_outer sz (int (length names) - 1) True (names, val, tbuf, map_arr)
      = (names', val', tbuf', map_arr')"
    and vl: "length val = length names * sz" and tl: "sz \<le> length tbuf"
    and ml: "length (map_list (length names) map_arr) = length names"
  shows "length names' = length names"
    and "length val' = length val"
    and "map_arr' = None \<longleftrightarrow> map_arr = None"
    and "length (map_list (length names) map_arr') = length names"
    and "sorted (map c_str names')"
    and "mset (zip (zip names' (enum_values sz (length names) val'))
                 (map_list (length names) map_arr'))
         = mset (zip (zip names (enum_values sz (length names) val))
                 (map_list (length names) map_arr))"
proof -
  let ?n = "length names"
  let ?xs = "zip (zip names (enum_values sz ?n val)) (map_list ?n map_arr)"
  let ?xs' = "zip (zip names' (enum_values sz ?n val')) (map_list ?n map_arr')"
  have il: "int ?n - 1 < int ?n" by simp
  from sort_name_enum_outer_sim[OF il vl tl ml run]
  have s: "length names' = ?n" "length val' = length val" "length (map_list ?n map_arr') = ?n"
    "map_arr' = None \<longleftrightarrow> map_arr = None"
    "bubble_sort (\<lambda>p. c_str (fst (fst p))) (nat (int ?n - 1)) True ?xs = ?xs'"
    by simp_all
  have n1: "nat (int ?n - 1) = length ?xs - 1" using ml by (simp add: enum_values_def)
  show "length names' = ?n" "length val' = length val" "map_arr' = None \<longleftrightarrow> map_arr = None"
    "length (map_list ?n map_arr') = ?n" by (rule s)+
  have "sorted (map (\<lambda>p. c_str (fst (fst p))) ?xs')"
    using bubble_sort_sorted[of "\<lambda>p. c_str (fst (fst p))" ?xs] s(5) n1 by simp
  moreover have "map (\<lambda>p. c_str (fst (fst p))) ?xs'
      = map (\<lambda>q. c_str (fst q)) (zip names' (enum_values sz ?n val'))"
    using s(1,3)
      map_fst_zip_eq[of "zip names' (enum_values sz ?n val')" "map_list ?n map_arr'"
        "\<lambda>q. c_str (fst q)"]
    by (simp add: enum_values_def)
  moreover have "map (\<lambda>q. c_str (fst q)) (zip names' (enum_values sz ?n val')) = map c_str names'"
    using s(1) map_fst_zip_eq[of names' "enum_values sz ?n val'" c_str]
    by (simp add: enum_values_def)
  ultimately show "sorted (map c_str names')" by simp
  show "mset ?xs' = mset ?xs"
    using bubble_sort_mset_top[of "\<lambda>p. c_str (fst (fst p))" ?xs] s(5) n1 by simp
qed

lemma H5T_sort_value_Compnd:
  "u dt = Compnd c \<Longrightarrow> compnd_sorted c \<noteq> H5T_SORT_VALUE \<Longrightarrow>
   H5T_sort_value nd dt map_arr = Returned (r, dt', map_arr') \<Longrightarrow>
   \<exists>membs'. sort_value_compnd_outer (compnd_nmembs c - 1) True (memb c, map_arr) = (membs', map_arr')
     \<and> r = SUCCEED
     \<and> dt' = dt\<lparr>u := Compnd (c\<lparr>compnd_sorted := H5T_SORT_VALUE, memb := membs'\<rparr>)\<rparr>"
  by (auto simp: H5T_sort_value_def Let_def split: prod.splits if_splits)

lemma H5T_sort_value_Enumer:
  "u dt = Enumer e \<Longrightarrow> enumer_sorted e \<noteq> H5T_SORT_VALUE \<Longrightarrow>
   H5T_sort_value nd dt map_arr = Returned (r, dt', map_arr') \<Longrightarrow>
   \<exists>names' val' tbuf'.
     sort_value_enum_outer (dt_size dt) (enumer_nmembs e - 1) True
       (enumer_name e, enumer_value e, tbuf_init, map_arr) = (names', val', tbuf', map_arr')
     \<and> r = SUCCEED
     \<and> dt' = dt\<lparr>u := Enumer (e\<lparr>enumer_sorted := H5T_SORT_VALUE,
                                  enumer_value := val', enumer_name := names'\<rparr>)\<rparr>"
  by (auto simp: H5T_sort_value_def Let_def split: prod.splits if_splits)

lemma H5T_sort_value_skip:
  "(case u dt of Compnd c \<Rightarrow> compnd_sorted c = H5T_SORT_VALUE
    | Enumer e \<Rightarrow> enumer_sorted e = H5T_SORT_VALUE | Other_class \<Rightarrow> nd) \<Longrightarrow>
   H5T_sort_value nd dt map_arr = Returned (SUCCEED, dt, map_arr)"
  by (auto simp: H5T_sort_value_def split: H5T_u.splits)

lemma H5T_sort_name_Compnd:
  "u dt = Compnd c \<Longrightarrow> compnd_sorted c \<noteq> H5T_SORT_NAME \<Longrightarrow>
   H5T_sort_name nd dt map_arr = Returned (r, dt', map_arr') \<Longrightarrow>
   \<exists>membs'. sort_name_compnd_outer (compnd_nmembs c - 1) True (memb c, map_arr) = (membs', map_arr')
     \<and> r = SUCCEED
     \<and> dt' = dt\<lparr>u := Compnd (c\<lparr>compnd_sorted := H5T_SORT_NAME, memb := membs'\<rparr>)\<rparr>"
  by (auto simp: H5T_sort_name_def Let_def split: prod.splits if_splits)

lemma H5T_sort_name_Enumer:
  "u dt = Enumer e \<Longrightarrow> enumer_sorted e \<noteq> H5T_SORT_NAME \<Longrightarrow>
   H5T_sort_name nd dt map_arr = Returned (r, dt', map_arr') \<Longrightarrow>
   \<exists>names' val' tbuf'.
     sort_name_enum_outer (dt_size dt) (enumer_nmembs e - 1) True
       (enumer_name e, enumer_value e, tbuf_init, map_arr) = (names', val', tbuf', map_arr')
     \<and> r = SUCCEED
     \<and> dt' = dt\<lparr>u := Enumer (e\<lparr>enumer_sorted := H5T_SORT_NAME,
                                  enumer_value := val', enumer_name := names'\<rparr>)\<rparr>"
  by (auto simp: H5T_sort_name_def Let_def split: prod.splits if_splits)

lemma H5T_sort_name_skip:
  "(case u dt of Compnd c \<Rightarrow> compnd_sorted c = H5T_SORT_NAME
    | Enumer e \<Rightarrow> enumer_sorted e = H5T_SORT_NAME | Other_class \<Rightarrow> nd) \<Longrightarrow>
   H5T_sort_name nd dt map_arr = Returned (SUCCEED, dt, map_arr)"
  by (auto simp: H5T_sort_name_def split: H5T_u.splits)

lemma H5T_sort_Other_class:
  "u dt = Other_class \<Longrightarrow> H5T_sort_value nd dt map_arr = Returned x \<Longrightarrow> x = (SUCCEED, dt, map_arr)"
  "u dt = Other_class \<Longrightarrow> H5T_sort_name nd dt map_arr = Returned x \<Longrightarrow> x = (SUCCEED, dt, map_arr)"
  by (auto simp: H5T_sort_value_def H5T_sort_name_def split: if_splits)

lemma members_Compnd: "u dt = Compnd c \<Longrightarrow> members dt = map (\<lambda>m. (name m, Inl (offset m))) (memb c)"
  by (simp add: members_def)

lemma members_Enumer:
  "u dt = Enumer e \<Longrightarrow>
   members dt = map (\<lambda>q. (fst q, Inr (snd q)))
     (zip (enumer_name e) (enum_values (dt_size dt) (length (enumer_name e)) (enumer_value e)))"
  by (simp add: members_def zip_map2 case_prod_beta)

lemma length_enum_values [simp]: "length (enum_values sz n val) = n"
  by (simp add: enum_values_def)

lemma mset_zip_map_left:
  assumes a: "mset (zip xs' ys') = mset (zip xs ys)"
  shows "mset (zip (map f xs') ys') = mset (zip (map f xs) ys)"
proof -
  have z: "\<And>xs ys. zip (map f xs) ys = map (\<lambda>p. (f (fst p), snd p)) (zip xs ys)"
    by (simp add: zip_map1 case_prod_beta)
  have "mset (zip (map f xs') ys') = image_mset (\<lambda>p. (f (fst p), snd p)) (mset (zip xs' ys'))"
    by (simp only: z mset_map)
  also have "\<dots> = image_mset (\<lambda>p. (f (fst p), snd p)) (mset (zip xs ys))"
    by (simp only: a)
  also have "\<dots> = mset (zip (map f xs) ys)"
    by (simp only: z mset_map)
  finally show ?thesis .
qed

lemma map_ok_Compnd:
  "u dt = Compnd c \<Longrightarrow> compnd_nmembs c = int (length (memb c)) \<Longrightarrow>
   map_ok dt map_arr \<longleftrightarrow> length (map_list (length (memb c)) map_arr) = length (memb c)"
  by (cases map_arr) (simp_all add: map_ok_def map_list_def)

lemma map_ok_Enumer:
  "u dt = Enumer e \<Longrightarrow> enumer_nmembs e = int (length (enumer_name e)) \<Longrightarrow>
   map_ok dt map_arr \<longleftrightarrow>
   length (map_list (length (enumer_name e)) map_arr) = length (enumer_name e)"
  by (cases map_arr) (simp_all add: map_ok_def map_list_def)

lemma map_ok_Other_class: "u dt = Other_class \<Longrightarrow> map_ok dt map_arr"
  by (cases map_arr) (simp_all add: map_ok_def)

lemma sort_effect_Compnd:
  assumes c: "u dt = Compnd c" and c': "u dt' = Compnd (c\<lparr>compnd_sorted := t, memb := membs'\<rparr>)"
    and ds: "dt_size dt' = dt_size dt"
    and ok: "H5T_ok dt"
    and l: "length membs' = length (memb c)"
    and ml: "length (map_list (length (memb c)) map_arr') = length (memb c)"
    and ms: "mset (zip membs' (map_list (length (memb c)) map_arr'))
         = mset (zip (memb c) (map_list (length (memb c)) map_arr))"
  shows "H5T_ok dt' \<and> H5T_get_nmembers dt' = H5T_get_nmembers dt \<and>
     length (members dt') = length (members dt) \<and> map_ok dt' map_arr' \<and>
     mset (zip (members dt') (map_list (length (members dt)) map_arr'))
       = mset (zip (members dt) (map_list (length (members dt)) map_arr))"
proof -
  have m: "members dt = map (\<lambda>m. (name m, Inl (offset m))) (memb c)"
    by (rule members_Compnd[OF c])
  have m': "members dt' = map (\<lambda>m. (name m, Inl (offset m))) membs'"
    using members_Compnd[OF c'] by simp
  have lm: "length (members dt) = length (memb c)" by (simp add: m)
  have lm': "length (members dt') = length (memb c)" by (simp add: m' l)
  have n: "compnd_nmembs c = int (length (memb c))" using ok c by (simp add: H5T_ok_def)
  have 1: "H5T_ok dt'" using n c' l by (simp add: H5T_ok_def)
  have 2: "map_ok dt' map_arr'"
    using map_ok_Compnd[OF c', of map_arr'] n l ml by simp
  have 3: "H5T_get_nmembers dt' = H5T_get_nmembers dt"
    using c c' by (simp add: H5T_get_nmembers_def)
  have 4: "mset (zip (members dt') (map_list (length (memb c)) map_arr'))
       = mset (zip (members dt) (map_list (length (memb c)) map_arr))"
    unfolding m m' by (rule mset_zip_map_left[OF ms])
  show ?thesis unfolding lm lm' using 1 2 3 4 by blast
qed

lemma sort_effect_Enumer:
  assumes e: "u dt = Enumer e"
    and e': "u dt' = Enumer (e\<lparr>enumer_sorted := t, enumer_value := val', enumer_name := names'\<rparr>)"
    and ds: "dt_size dt' = dt_size dt"
    and ok: "H5T_ok dt"
    and l: "length names' = length (enumer_name e)"
    and vl: "length val' = length (enumer_value e)"
    and ml: "length (map_list (length (enumer_name e)) map_arr') = length (enumer_name e)"
    and ms: "mset (zip (zip names' (enum_values (dt_size dt) (length (enumer_name e)) val'))
                 (map_list (length (enumer_name e)) map_arr'))
         = mset (zip (zip (enumer_name e)
                   (enum_values (dt_size dt) (length (enumer_name e)) (enumer_value e)))
                 (map_list (length (enumer_name e)) map_arr))"
  shows "H5T_ok dt' \<and> H5T_get_nmembers dt' = H5T_get_nmembers dt \<and>
     length (members dt') = length (members dt) \<and> map_ok dt' map_arr' \<and>
     mset (zip (members dt') (map_list (length (members dt)) map_arr'))
       = mset (zip (members dt) (map_list (length (members dt)) map_arr))"
proof -
  let ?n = "length (enumer_name e)"
  have m: "members dt = map (\<lambda>q. (fst q, Inr (snd q)))
       (zip (enumer_name e) (enum_values (dt_size dt) ?n (enumer_value e)))"
    by (rule members_Enumer[OF e])
  have m': "members dt' = map (\<lambda>q. (fst q, Inr (snd q)))
       (zip names' (enum_values (dt_size dt) ?n val'))"
    using members_Enumer[OF e'] ds l by simp
  have lm: "length (members dt) = ?n" by (simp add: m)
  have lm': "length (members dt') = ?n" by (simp add: m' l)
  have n: "enumer_nmembs e = int ?n"
    and v: "length (enumer_value e) = ?n * dt_size dt" and z: "dt_size dt \<le> 32"
    using ok e by (simp_all add: H5T_ok_def)
  have 1: "H5T_ok dt'" using n v z e' l vl ds by (simp add: H5T_ok_def)
  have 2: "map_ok dt' map_arr'"
    using map_ok_Enumer[OF e', of map_arr'] n l ml by simp
  have 3: "H5T_get_nmembers dt' = H5T_get_nmembers dt"
    using e e' by (simp add: H5T_get_nmembers_def)
  have 4: "mset (zip (members dt') (map_list ?n map_arr'))
       = mset (zip (members dt) (map_list ?n map_arr))"
    unfolding m m' by (rule mset_zip_map_left[OF ms])
  show ?thesis unfolding lm lm' using 1 2 3 4 by blast
qed

lemma map_ok_length:
  "H5T_ok dt \<Longrightarrow> map_ok dt map_arr \<Longrightarrow> u dt \<noteq> Other_class \<Longrightarrow>
   length (map_list (length (members dt)) map_arr) = length (members dt)"
  by (cases map_arr; cases "u dt")
     (simp_all add: map_list_def map_ok_def H5T_ok_def members_def)

lemma members_length_Compnd: "u dt = Compnd c \<Longrightarrow> length (members dt) = length (memb c)"
  by (simp add: members_def)

lemma members_length_Enumer: "u dt = Enumer e \<Longrightarrow> length (members dt) = length (enumer_name e)"
  by (simp add: members_def)

lemma H5T_sort_value_effect:
  assumes ok: "H5T_ok dt" and mo: "map_ok dt map_arr"
    and run: "H5T_sort_value nd dt map_arr = Returned (r, dt', map_arr')"
  shows "r = SUCCEED \<and> dt_size dt' = dt_size dt \<and> (map_arr' = None \<longleftrightarrow> map_arr = None) \<and>
     H5T_ok dt' \<and> H5T_get_nmembers dt' = H5T_get_nmembers dt \<and>
     length (members dt') = length (members dt) \<and> map_ok dt' map_arr' \<and>
     mset (zip (members dt') (map_list (length (members dt)) map_arr'))
       = mset (zip (members dt) (map_list (length (members dt)) map_arr))"
proof (cases "case u dt of Compnd c \<Rightarrow> compnd_sorted c = H5T_SORT_VALUE
    | Enumer e \<Rightarrow> enumer_sorted e = H5T_SORT_VALUE | Other_class \<Rightarrow> nd")
  case True
  from H5T_sort_value_skip[OF True, of map_arr] run
  have "r = SUCCEED" "dt' = dt" "map_arr' = map_arr" by simp_all
  then show ?thesis using ok mo by simp
next
  case False
  show ?thesis
  proof (cases "u dt")
    case Other_class
    from H5T_sort_Other_class(1)[OF Other_class run]
    show ?thesis using ok mo by simp
  next
    case (Compnd c)
    with False have ns: "compnd_sorted c \<noteq> H5T_SORT_VALUE" by simp
    from H5T_sort_value_Compnd[OF Compnd ns run] obtain membs' where
      o: "sort_value_compnd_outer (compnd_nmembs c - 1) True (memb c, map_arr) = (membs', map_arr')"
      and r: "r = SUCCEED"
      and d: "dt' = dt\<lparr>u := Compnd (c\<lparr>compnd_sorted := H5T_SORT_VALUE, memb := membs'\<rparr>)\<rparr>"
      by blast
    have n: "compnd_nmembs c = int (length (memb c))" using ok Compnd by (simp add: H5T_ok_def)
    have ml: "length (map_list (length (memb c)) map_arr) = length (memb c)"
      using map_ok_Compnd[OF Compnd n] mo by simp
    note p = compnd_value_run[OF o[unfolded n] ml]
    have u': "u dt' = Compnd (c\<lparr>compnd_sorted := H5T_SORT_VALUE, memb := membs'\<rparr>)"
      and ds: "dt_size dt' = dt_size dt" using d by simp_all
    from sort_effect_Compnd[OF Compnd u' ds ok p(1) p(3) p(5)] r ds p(2) show ?thesis
      by (elim conjE) (intro conjI; assumption)
  next
    case (Enumer e)
    with False have ns: "enumer_sorted e \<noteq> H5T_SORT_VALUE" by simp
    from H5T_sort_value_Enumer[OF Enumer ns run] obtain names' val' tbuf' where
      o: "sort_value_enum_outer (dt_size dt) (enumer_nmembs e - 1) True
           (enumer_name e, enumer_value e, tbuf_init, map_arr) = (names', val', tbuf', map_arr')"
      and r: "r = SUCCEED"
      and d: "dt' = dt\<lparr>u := Enumer (e\<lparr>enumer_sorted := H5T_SORT_VALUE,
                                  enumer_value := val', enumer_name := names'\<rparr>)\<rparr>"
      by blast
    have n: "enumer_nmembs e = int (length (enumer_name e))"
      and vl: "length (enumer_value e) = length (enumer_name e) * dt_size dt"
      and tl: "dt_size dt \<le> length tbuf_init"
      using ok Enumer by (simp_all add: H5T_ok_def tbuf_init_def)
    have ml: "length (map_list (length (enumer_name e)) map_arr) = length (enumer_name e)"
      using map_ok_Enumer[OF Enumer n] mo by simp
    note p = enum_value_run[OF o[unfolded n] vl tl ml]
    have u': "u dt' = Enumer (e\<lparr>enumer_sorted := H5T_SORT_VALUE,
                                  enumer_value := val', enumer_name := names'\<rparr>)"
      and ds: "dt_size dt' = dt_size dt" using d by simp_all
    from sort_effect_Enumer[OF Enumer u' ds ok p(1) p(2) p(4) p(6)] r ds p(3) show ?thesis
      by (elim conjE) (intro conjI; assumption)
  qed
qed

lemma H5T_sort_name_effect:
  assumes ok: "H5T_ok dt" and mo: "map_ok dt map_arr"
    and run: "H5T_sort_name nd dt map_arr = Returned (r, dt', map_arr')"
  shows "r = SUCCEED \<and> dt_size dt' = dt_size dt \<and> (map_arr' = None \<longleftrightarrow> map_arr = None) \<and>
     H5T_ok dt' \<and> H5T_get_nmembers dt' = H5T_get_nmembers dt \<and>
     length (members dt') = length (members dt) \<and> map_ok dt' map_arr' \<and>
     mset (zip (members dt') (map_list (length (members dt)) map_arr'))
       = mset (zip (members dt) (map_list (length (members dt)) map_arr))"
proof (cases "case u dt of Compnd c \<Rightarrow> compnd_sorted c = H5T_SORT_NAME
    | Enumer e \<Rightarrow> enumer_sorted e = H5T_SORT_NAME | Other_class \<Rightarrow> nd")
  case True
  from H5T_sort_name_skip[OF True, of map_arr] run
  have "r = SUCCEED" "dt' = dt" "map_arr' = map_arr" by simp_all
  then show ?thesis using ok mo by simp
next
  case False
  show ?thesis
  proof (cases "u dt")
    case Other_class
    from H5T_sort_Other_class(2)[OF Other_class run]
    show ?thesis using ok mo by simp
  next
    case (Compnd c)
    with False have ns: "compnd_sorted c \<noteq> H5T_SORT_NAME" by simp
    from H5T_sort_name_Compnd[OF Compnd ns run] obtain membs' where
      o: "sort_name_compnd_outer (compnd_nmembs c - 1) True (memb c, map_arr) = (membs', map_arr')"
      and r: "r = SUCCEED"
      and d: "dt' = dt\<lparr>u := Compnd (c\<lparr>compnd_sorted := H5T_SORT_NAME, memb := membs'\<rparr>)\<rparr>"
      by blast
    have n: "compnd_nmembs c = int (length (memb c))" using ok Compnd by (simp add: H5T_ok_def)
    have ml: "length (map_list (length (memb c)) map_arr) = length (memb c)"
      using map_ok_Compnd[OF Compnd n] mo by simp
    note p = compnd_name_run[OF o[unfolded n] ml]
    have u': "u dt' = Compnd (c\<lparr>compnd_sorted := H5T_SORT_NAME, memb := membs'\<rparr>)"
      and ds: "dt_size dt' = dt_size dt" using d by simp_all
    from sort_effect_Compnd[OF Compnd u' ds ok p(1) p(3) p(5)] r ds p(2) show ?thesis
      by (elim conjE) (intro conjI; assumption)
  next
    case (Enumer e)
    with False have ns: "enumer_sorted e \<noteq> H5T_SORT_NAME" by simp
    from H5T_sort_name_Enumer[OF Enumer ns run] obtain names' val' tbuf' where
      o: "sort_name_enum_outer (dt_size dt) (enumer_nmembs e - 1) True
           (enumer_name e, enumer_value e, tbuf_init, map_arr) = (names', val', tbuf', map_arr')"
      and r: "r = SUCCEED"
      and d: "dt' = dt\<lparr>u := Enumer (e\<lparr>enumer_sorted := H5T_SORT_NAME,
                                  enumer_value := val', enumer_name := names'\<rparr>)\<rparr>"
      by blast
    have n: "enumer_nmembs e = int (length (enumer_name e))"
      and vl: "length (enumer_value e) = length (enumer_name e) * dt_size dt"
      and tl: "dt_size dt \<le> length tbuf_init"
      using ok Enumer by (simp_all add: H5T_ok_def tbuf_init_def)
    have ml: "length (map_list (length (enumer_name e)) map_arr) = length (enumer_name e)"
      using map_ok_Enumer[OF Enumer n] mo by simp
    note p = enum_name_run[OF o[unfolded n] vl tl ml]
    have u': "u dt' = Enumer (e\<lparr>enumer_sorted := H5T_SORT_NAME,
                                  enumer_value := val', enumer_name := names'\<rparr>)"
      and ds: "dt_size dt' = dt_size dt" using d by simp_all
    from sort_effect_Enumer[OF Enumer u' ds ok p(1) p(2) p(4) p(6)] r ds p(3) show ?thesis
      by (elim conjE) (intro conjI; assumption)
  qed
qed

lemma H5T_sort_value_order:
  assumes ok: "H5T_ok dt" and mo: "map_ok dt map_arr" and inv: "sort_state_ok dt"
    and run: "H5T_sort_value nd dt map_arr = Returned (r, dt', map_arr')"
  shows "sort_state_ok dt' \<and>
     (case u dt' of
        Compnd c' \<Rightarrow> compnd_sorted c' = H5T_SORT_VALUE \<and> sorted (map offset (memb c'))
      | Enumer e' \<Rightarrow> enumer_sorted e' = H5T_SORT_VALUE \<and> sorted (enum_values (dt_size dt') (length (enumer_name e')) (enumer_value e'))
      | Other_class \<Rightarrow> True)"
proof (cases "case u dt of Compnd c \<Rightarrow> compnd_sorted c = H5T_SORT_VALUE
    | Enumer e \<Rightarrow> enumer_sorted e = H5T_SORT_VALUE | Other_class \<Rightarrow> nd")
  case True
  from H5T_sort_value_skip[OF True, of map_arr] run
  have "dt' = dt" by simp
  then show ?thesis using inv True by (cases "u dt") (simp_all add: sort_state_ok_def)
next
  case False
  show ?thesis
  proof (cases "u dt")
    case Other_class
    from H5T_sort_Other_class(1)[OF Other_class run]
    show ?thesis using Other_class by (simp add: sort_state_ok_def)
  next
    case (Compnd c)
    with False have ns: "compnd_sorted c \<noteq> H5T_SORT_VALUE" by simp
    from H5T_sort_value_Compnd[OF Compnd ns run] obtain membs' where
      o: "sort_value_compnd_outer (compnd_nmembs c - 1) True (memb c, map_arr) = (membs', map_arr')"
      and d: "dt' = dt\<lparr>u := Compnd (c\<lparr>compnd_sorted := H5T_SORT_VALUE, memb := membs'\<rparr>)\<rparr>"
      by blast
    have n: "compnd_nmembs c = int (length (memb c))" using ok Compnd by (simp add: H5T_ok_def)
    have ml: "length (map_list (length (memb c)) map_arr) = length (memb c)"
      using map_ok_Compnd[OF Compnd n] mo by simp
    note p = compnd_value_run[OF o[unfolded n] ml]
    show ?thesis using d p(4) by (simp add: sort_state_ok_def)
  next
    case (Enumer e)
    with False have ns: "enumer_sorted e \<noteq> H5T_SORT_VALUE" by simp
    from H5T_sort_value_Enumer[OF Enumer ns run] obtain names' val' tbuf' where
      o: "sort_value_enum_outer (dt_size dt) (enumer_nmembs e - 1) True
           (enumer_name e, enumer_value e, tbuf_init, map_arr) = (names', val', tbuf', map_arr')"
      and d: "dt' = dt\<lparr>u := Enumer (e\<lparr>enumer_sorted := H5T_SORT_VALUE,
                                  enumer_value := val', enumer_name := names'\<rparr>)\<rparr>"
      by blast
    have n: "enumer_nmembs e = int (length (enumer_name e))"
      and vl: "length (enumer_value e) = length (enumer_name e) * dt_size dt"
      and tl: "dt_size dt \<le> length tbuf_init"
      using ok Enumer by (simp_all add: H5T_ok_def tbuf_init_def)
    have ml: "length (map_list (length (enumer_name e)) map_arr) = length (enumer_name e)"
      using map_ok_Enumer[OF Enumer n] mo by simp
    note p = enum_value_run[OF o[unfolded n] vl tl ml]
    show ?thesis using d p(1) p(5) by (simp add: sort_state_ok_def)
  qed
qed

lemma H5T_sort_name_order:
  assumes ok: "H5T_ok dt" and mo: "map_ok dt map_arr" and inv: "sort_state_ok dt"
    and run: "H5T_sort_name nd dt map_arr = Returned (r, dt', map_arr')"
  shows "sort_state_ok dt' \<and>
     (case u dt' of
        Compnd c' \<Rightarrow> compnd_sorted c' = H5T_SORT_NAME \<and> sorted (map (\<lambda>m. c_str (name m)) (memb c'))
      | Enumer e' \<Rightarrow> enumer_sorted e' = H5T_SORT_NAME \<and> sorted (map c_str (enumer_name e'))
      | Other_class \<Rightarrow> True)"
proof (cases "case u dt of Compnd c \<Rightarrow> compnd_sorted c = H5T_SORT_NAME
    | Enumer e \<Rightarrow> enumer_sorted e = H5T_SORT_NAME | Other_class \<Rightarrow> nd")
  case True
  from H5T_sort_name_skip[OF True, of map_arr] run
  have "dt' = dt" by simp
  then show ?thesis using inv True by (cases "u dt") (simp_all add: sort_state_ok_def)
next
  case False
  show ?thesis
  proof (cases "u dt")
    case Other_class
    from H5T_sort_Other_class(2)[OF Other_class run]
    show ?thesis using Other_class by (simp add: sort_state_ok_def)
  next
    case (Compnd c)
    with False have ns: "compnd_sorted c \<noteq> H5T_SORT_NAME" by simp
    from H5T_sort_name_Compnd[OF Compnd ns run] obtain membs' where
      o: "sort_name_compnd_outer (compnd_nmembs c - 1) True (memb c, map_arr) = (membs', map_arr')"
      and d: "dt' = dt\<lparr>u := Compnd (c\<lparr>compnd_sorted := H5T_SORT_NAME, memb := membs'\<rparr>)\<rparr>"
      by blast
    have n: "compnd_nmembs c = int (length (memb c))" using ok Compnd by (simp add: H5T_ok_def)
    have ml: "length (map_list (length (memb c)) map_arr) = length (memb c)"
      using map_ok_Compnd[OF Compnd n] mo by simp
    note p = compnd_name_run[OF o[unfolded n] ml]
    show ?thesis using d p(4) by (simp add: sort_state_ok_def)
  next
    case (Enumer e)
    with False have ns: "enumer_sorted e \<noteq> H5T_SORT_NAME" by simp
    from H5T_sort_name_Enumer[OF Enumer ns run] obtain names' val' tbuf' where
      o: "sort_name_enum_outer (dt_size dt) (enumer_nmembs e - 1) True
           (enumer_name e, enumer_value e, tbuf_init, map_arr) = (names', val', tbuf', map_arr')"
      and d: "dt' = dt\<lparr>u := Enumer (e\<lparr>enumer_sorted := H5T_SORT_NAME,
                                  enumer_value := val', enumer_name := names'\<rparr>)\<rparr>"
      by blast
    have n: "enumer_nmembs e = int (length (enumer_name e))"
      and vl: "length (enumer_value e) = length (enumer_name e) * dt_size dt"
      and tl: "dt_size dt \<le> length tbuf_init"
      using ok Enumer by (simp_all add: H5T_ok_def tbuf_init_def)
    have ml: "length (map_list (length (enumer_name e)) map_arr) = length (enumer_name e)"
      using map_ok_Enumer[OF Enumer n] mo by simp
    note p = enum_name_run[OF o[unfolded n] vl tl ml]
    show ?thesis using d p(1) p(5) by (simp add: sort_state_ok_def)
  qed
qed

section \<open>Looking a member up\<close>

lemma index_loop_compnd_Some:
  "index_loop_compnd membs nm nmembs i0 = Some i \<longleftrightarrow>
     i0 \<le> i \<and> i < nmembs \<and> HDstrcmp (name (membs ! nat i)) nm = 0 \<and>
     (\<forall>k. i0 \<le> k \<and> k < i \<longrightarrow> HDstrcmp (name (membs ! nat k)) nm \<noteq> 0)"
proof (induction membs nm nmembs i0 rule: index_loop_compnd.induct)
  case (1 membs nm nmembs i0)
  show ?case
  proof (cases "i0 < nmembs")
    case False
    then show ?thesis by (subst index_loop_compnd.simps) auto
  next
    case lt: True
    show ?thesis
    proof (cases "HDstrcmp (name (membs ! nat i0)) nm = 0")
      case True
      have "index_loop_compnd membs nm nmembs i0 = Some i0"
        using lt True by (subst index_loop_compnd.simps) simp
      moreover have "i0 = i \<longleftrightarrow> i0 \<le> i \<and> i < nmembs \<and> HDstrcmp (name (membs ! nat i)) nm = 0 \<and>
          (\<forall>k. i0 \<le> k \<and> k < i \<longrightarrow> HDstrcmp (name (membs ! nat k)) nm \<noteq> 0)"
      proof
        assume "i0 = i" with lt True show "i0 \<le> i \<and> i < nmembs \<and>
          HDstrcmp (name (membs ! nat i)) nm = 0 \<and>
          (\<forall>k. i0 \<le> k \<and> k < i \<longrightarrow> HDstrcmp (name (membs ! nat k)) nm \<noteq> 0)" by auto
      next
        assume a: "i0 \<le> i \<and> i < nmembs \<and> HDstrcmp (name (membs ! nat i)) nm = 0 \<and>
          (\<forall>k. i0 \<le> k \<and> k < i \<longrightarrow> HDstrcmp (name (membs ! nat k)) nm \<noteq> 0)"
        show "i0 = i"
        proof (rule ccontr)
          assume "i0 \<noteq> i" with a have "i0 \<le> i0 \<and> i0 < i" by simp
          with a True show False by blast
        qed
      qed
      ultimately show ?thesis by simp
    next
      case False
      have "index_loop_compnd membs nm nmembs i0 = index_loop_compnd membs nm nmembs (i0 + 1)"
        using lt False by (subst index_loop_compnd.simps) simp
      moreover have "(i0 + 1 \<le> i \<and> i < nmembs \<and> HDstrcmp (name (membs ! nat i)) nm = 0 \<and>
          (\<forall>k. i0 + 1 \<le> k \<and> k < i \<longrightarrow> HDstrcmp (name (membs ! nat k)) nm \<noteq> 0))
        \<longleftrightarrow> (i0 \<le> i \<and> i < nmembs \<and> HDstrcmp (name (membs ! nat i)) nm = 0 \<and>
          (\<forall>k. i0 \<le> k \<and> k < i \<longrightarrow> HDstrcmp (name (membs ! nat k)) nm \<noteq> 0))"
        (is "?L \<longleftrightarrow> ?R")
      proof
        assume l: ?L
        have "\<forall>k. i0 \<le> k \<and> k < i \<longrightarrow> HDstrcmp (name (membs ! nat k)) nm \<noteq> 0"
        proof (intro allI impI)
          fix k assume k: "i0 \<le> k \<and> k < i"
          show "HDstrcmp (name (membs ! nat k)) nm \<noteq> 0"
          proof (cases "k = i0")
            case True with False show ?thesis by simp
          next
            case False with k have "i0 + 1 \<le> k \<and> k < i" by simp
            with l show ?thesis by blast
          qed
        qed
        with l show ?R by simp
      next
        assume r: ?R
        then have "i \<noteq> i0" using False by auto
        with r have "i0 + 1 \<le> i" by simp
        moreover have "\<forall>k. i0 + 1 \<le> k \<and> k < i \<longrightarrow> HDstrcmp (name (membs ! nat k)) nm \<noteq> 0"
          using r by simp
        ultimately show ?L using r by simp
      qed
      ultimately show ?thesis using "1.IH"[OF lt False] by simp
    qed
  qed
qed

lemma index_loop_compnd_None:
  "index_loop_compnd membs nm nmembs i0 = None \<longleftrightarrow>
     (\<forall>k. i0 \<le> k \<and> k < nmembs \<longrightarrow> HDstrcmp (name (membs ! nat k)) nm \<noteq> 0)"
proof
  assume n: "index_loop_compnd membs nm nmembs i0 = None"
  show "\<forall>k. i0 \<le> k \<and> k < nmembs \<longrightarrow> HDstrcmp (name (membs ! nat k)) nm \<noteq> 0"
    using n
  proof (induction membs nm nmembs i0 rule: index_loop_compnd.induct)
    case (1 membs nm nmembs i0)
    show ?case
    proof (intro allI impI)
      fix k assume k: "i0 \<le> k \<and> k < nmembs"
      then have lt: "i0 < nmembs" by simp
      from "1.prems" lt have ne: "HDstrcmp (name (membs ! nat i0)) nm \<noteq> 0"
        by (subst (asm) index_loop_compnd.simps) (auto split: if_splits)
      from "1.prems" lt ne have "index_loop_compnd membs nm nmembs (i0 + 1) = None"
        by (subst (asm) index_loop_compnd.simps) simp
      from "1.IH"[OF lt ne this] have "\<forall>k. i0 + 1 \<le> k \<and> k < nmembs \<longrightarrow>
          HDstrcmp (name (membs ! nat k)) nm \<noteq> 0" .
      with k ne show "HDstrcmp (name (membs ! nat k)) nm \<noteq> 0"
        by (cases "k = i0") auto
    qed
  qed
next
  assume a: "\<forall>k. i0 \<le> k \<and> k < nmembs \<longrightarrow> HDstrcmp (name (membs ! nat k)) nm \<noteq> 0"
  show "index_loop_compnd membs nm nmembs i0 = None"
  proof (cases "index_loop_compnd membs nm nmembs i0")
    case None then show ?thesis .
  next
    case (Some i)
    with index_loop_compnd_Some[of membs nm nmembs i0 i] a show ?thesis by blast
  qed
qed

lemma index_loop_enum_Some:
  "index_loop_enum names nm nnames i0 = Some i \<longleftrightarrow>
     i0 \<le> i \<and> i < nnames \<and> HDstrcmp (names ! nat i) nm = 0 \<and>
     (\<forall>k. i0 \<le> k \<and> k < i \<longrightarrow> HDstrcmp (names ! nat k) nm \<noteq> 0)"
proof (induction names nm nnames i0 rule: index_loop_enum.induct)
  case (1 names nm nnames i0)
  show ?case
  proof (cases "i0 < nnames")
    case False
    then show ?thesis by (subst index_loop_enum.simps) auto
  next
    case lt: True
    show ?thesis
    proof (cases "HDstrcmp (names ! nat i0) nm = 0")
      case True
      have "index_loop_enum names nm nnames i0 = Some i0"
        using lt True by (subst index_loop_enum.simps) simp
      moreover have "i0 = i \<longleftrightarrow> i0 \<le> i \<and> i < nnames \<and> HDstrcmp (names ! nat i) nm = 0 \<and>
          (\<forall>k. i0 \<le> k \<and> k < i \<longrightarrow> HDstrcmp (names ! nat k) nm \<noteq> 0)"
      proof
        assume "i0 = i" with lt True show "i0 \<le> i \<and> i < nnames \<and>
          HDstrcmp (names ! nat i) nm = 0 \<and>
          (\<forall>k. i0 \<le> k \<and> k < i \<longrightarrow> HDstrcmp (names ! nat k) nm \<noteq> 0)" by auto
      next
        assume a: "i0 \<le> i \<and> i < nnames \<and> HDstrcmp (names ! nat i) nm = 0 \<and>
          (\<forall>k. i0 \<le> k \<and> k < i \<longrightarrow> HDstrcmp (names ! nat k) nm \<noteq> 0)"
        show "i0 = i"
        proof (rule ccontr)
          assume "i0 \<noteq> i" with a have "i0 \<le> i0 \<and> i0 < i" by simp
          with a True show False by blast
        qed
      qed
      ultimately show ?thesis by simp
    next
      case False
      have "index_loop_enum names nm nnames i0 = index_loop_enum names nm nnames (i0 + 1)"
        using lt False by (subst index_loop_enum.simps) simp
      moreover have "(i0 + 1 \<le> i \<and> i < nnames \<and> HDstrcmp (names ! nat i) nm = 0 \<and>
          (\<forall>k. i0 + 1 \<le> k \<and> k < i \<longrightarrow> HDstrcmp (names ! nat k) nm \<noteq> 0))
        \<longleftrightarrow> (i0 \<le> i \<and> i < nnames \<and> HDstrcmp (names ! nat i) nm = 0 \<and>
          (\<forall>k. i0 \<le> k \<and> k < i \<longrightarrow> HDstrcmp (names ! nat k) nm \<noteq> 0))"
        (is "?L \<longleftrightarrow> ?R")
      proof
        assume l: ?L
        have "\<forall>k. i0 \<le> k \<and> k < i \<longrightarrow> HDstrcmp (names ! nat k) nm \<noteq> 0"
        proof (intro allI impI)
          fix k assume k: "i0 \<le> k \<and> k < i"
          show "HDstrcmp (names ! nat k) nm \<noteq> 0"
          proof (cases "k = i0")
            case True with False show ?thesis by simp
          next
            case False with k have "i0 + 1 \<le> k \<and> k < i" by simp
            with l show ?thesis by blast
          qed
        qed
        with l show ?R by simp
      next
        assume r: ?R
        then have "i \<noteq> i0" using False by auto
        with r have "i0 + 1 \<le> i" by simp
        moreover have "\<forall>k. i0 + 1 \<le> k \<and> k < i \<longrightarrow> HDstrcmp (names ! nat k) nm \<noteq> 0"
          using r by simp
        ultimately show ?L using r by simp
      qed
      ultimately show ?thesis using "1.IH"[OF lt False] by simp
    qed
  qed
qed

lemma index_loop_enum_None:
  "index_loop_enum names nm nnames i0 = None \<longleftrightarrow>
     (\<forall>k. i0 \<le> k \<and> k < nnames \<longrightarrow> HDstrcmp (names ! nat k) nm \<noteq> 0)"
proof
  assume n: "index_loop_enum names nm nnames i0 = None"
  show "\<forall>k. i0 \<le> k \<and> k < nnames \<longrightarrow> HDstrcmp (names ! nat k) nm \<noteq> 0"
    using n
  proof (induction names nm nnames i0 rule: index_loop_enum.induct)
    case (1 names nm nnames i0)
    show ?case
    proof (intro allI impI)
      fix k assume k: "i0 \<le> k \<and> k < nnames"
      then have lt: "i0 < nnames" by simp
      from "1.prems" lt have ne: "HDstrcmp (names ! nat i0) nm \<noteq> 0"
        by (subst (asm) index_loop_enum.simps) (auto split: if_splits)
      from "1.prems" lt ne have "index_loop_enum names nm nnames (i0 + 1) = None"
        by (subst (asm) index_loop_enum.simps) simp
      from "1.IH"[OF lt ne this] have "\<forall>k. i0 + 1 \<le> k \<and> k < nnames \<longrightarrow>
          HDstrcmp (names ! nat k) nm \<noteq> 0" .
      with k ne show "HDstrcmp (names ! nat k) nm \<noteq> 0"
        by (cases "k = i0") auto
    qed
  qed
next
  assume a: "\<forall>k. i0 \<le> k \<and> k < nnames \<longrightarrow> HDstrcmp (names ! nat k) nm \<noteq> 0"
  show "index_loop_enum names nm nnames i0 = None"
  proof (cases "index_loop_enum names nm nnames i0")
    case None then show ?thesis .
  next
    case (Some i)
    with index_loop_enum_Some[of names nm nnames i0 i] a show ?thesis by blast
  qed
qed

lemma first_match_cong:
  assumes fg: "\<And>k. 0 \<le> k \<Longrightarrow> k < n \<Longrightarrow> f k = g k"
  shows "(0 \<le> i \<and> i < n \<and> P (f i) \<and> (\<forall>k. 0 \<le> k \<and> k < i \<longrightarrow> \<not> P (f k)))
     \<longleftrightarrow> (0 \<le> i \<and> i < (n::int) \<and> P (g i) \<and> (\<forall>k. 0 \<le> k \<and> k < i \<longrightarrow> \<not> P (g k)))"
proof (cases "0 \<le> i \<and> i < n")
  case False
  then show ?thesis by blast
next
  case True
  then have i: "f i = g i" using fg by blast
  have "\<And>k. 0 \<le> k \<and> k < i \<Longrightarrow> f k = g k"
  proof -
    fix k assume "0 \<le> k \<and> k < i"
    with True have "0 \<le> k" "k < n" by simp_all
    then show "f k = g k" by (rule fg)
  qed
  then have "(\<forall>k. 0 \<le> k \<and> k < i \<longrightarrow> \<not> P (f k)) \<longleftrightarrow> (\<forall>k. 0 \<le> k \<and> k < i \<longrightarrow> \<not> P (g k))"
    by metis
  with i show ?thesis by simp
qed

lemma no_match_cong:
  assumes fg: "\<And>k. 0 \<le> k \<Longrightarrow> k < n \<Longrightarrow> f k = g k"
  shows "(\<forall>k. 0 \<le> k \<and> k < (n::int) \<longrightarrow> \<not> P (f k)) \<longleftrightarrow> (\<forall>k. 0 \<le> k \<and> k < n \<longrightarrow> \<not> P (g k))"
  using fg by metis

lemma member_name_at:
  assumes ok: "count_ok dt" and n: "H5T_get_nmembers dt = Inr n" and k: "0 \<le> k" "k < n"
  shows "H5T_get_member_name dt k = Inr (c_str (fst (members dt ! nat k)))"
proof (cases "u dt")
  case Other_class
  with n show ?thesis by (simp add: H5T_get_nmembers_def)
next
  case (Compnd c)
  with n ok have "compnd_nmembs c = n" "n = int (length (memb c))"
    by (simp_all add: H5T_get_nmembers_def count_ok_def)
  with k Compnd show ?thesis
    by (simp add: H5T_get_member_name_def members_def H5MM_xstrdup_def)
next
  case (Enumer e)
  with n ok have "enumer_nmembs e = n" "n = int (length (enumer_name e))"
    by (simp_all add: H5T_get_nmembers_def count_ok_def)
  with k Enumer show ?thesis
    by (simp add: H5T_get_member_name_def members_def H5MM_xstrdup_def)
qed

lemma member_index_cases:
  assumes r: "H5Tget_member_index verify type_id nm
      = (case res of Some i \<Rightarrow> (i, None) | None \<Rightarrow> (FAIL, None))"
    and s: "\<And>i. res = Some i \<longleftrightarrow> 0 \<le> i \<and> i < n \<and> Q i"
    and e: "res = None \<longleftrightarrow> R"
  shows "(H5Tget_member_index verify type_id nm = (i, None) \<and> 0 \<le> i \<longleftrightarrow> 0 \<le> i \<and> i < n \<and> Q i)
     \<and> (H5Tget_member_index verify type_id nm = (FAIL, None) \<longleftrightarrow> R)"
proof (cases res)
  case None
  then have "H5Tget_member_index verify type_id nm = (FAIL, None)" using r by simp
  moreover have "\<not> (0 \<le> i \<and> i < n \<and> Q i)" using s[of i] None by simp
  moreover have R using e None by simp
  ultimately show ?thesis by (auto simp: FAIL_def)
next
  case (Some j)
  then have h: "H5Tget_member_index verify type_id nm = (j, None)" using r by simp
  have j: "0 \<le> j \<and> j < n \<and> Q j" using s[of j] Some by simp
  have "\<not> R" using e Some by simp
  moreover have "j \<noteq> FAIL" using j by (simp add: FAIL_def)
  moreover have "j = i \<longleftrightarrow> 0 \<le> i \<and> i < n \<and> Q i" using s[of i] Some by auto
  ultimately show ?thesis using h j by auto
qed

lemma member_index_first:
  assumes v: "verify type_id = Some dt" and ok: "count_ok dt" and n: "H5T_get_nmembers dt = Inr n"
  shows "(H5Tget_member_index verify type_id nm = (i, None) \<and> 0 \<le> i \<longleftrightarrow>
            0 \<le> i \<and> i < n \<and>
            (HDstrcmp (fst (members dt ! nat i)) nm = 0 \<and>
             (\<forall>k. 0 \<le> k \<and> k < i \<longrightarrow> HDstrcmp (fst (members dt ! nat k)) nm \<noteq> 0)))
     \<and> (H5Tget_member_index verify type_id nm = (FAIL, None) \<longleftrightarrow>
            (\<forall>k. 0 \<le> k \<and> k < n \<longrightarrow> HDstrcmp (fst (members dt ! nat k)) nm \<noteq> 0))"
proof (cases "u dt")
  case Other_class
  with n show ?thesis by (simp add: H5T_get_nmembers_def)
next
  case (Compnd c)
  with n ok have nn: "compnd_nmembs c = n" "n = int (length (memb c))"
    by (simp_all add: H5T_get_nmembers_def count_ok_def)
  have f: "\<And>k. 0 \<le> k \<Longrightarrow> k < n \<Longrightarrow> name (memb c ! nat k) = fst (members dt ! nat k)"
    using Compnd nn by (simp add: members_def nat_less_iff)
  let ?r = "index_loop_compnd (memb c) nm n 0"
  have 1: "H5Tget_member_index verify type_id nm
      = (case ?r of Some i \<Rightarrow> (i, None) | None \<Rightarrow> (FAIL, None))"
    using v Compnd nn by (simp add: H5Tget_member_index_def)
  have 2: "?r = Some i \<longleftrightarrow> 0 \<le> i \<and> i < n \<and>
            (HDstrcmp (fst (members dt ! nat i)) nm = 0 \<and>
             (\<forall>k. 0 \<le> k \<and> k < i \<longrightarrow> HDstrcmp (fst (members dt ! nat k)) nm \<noteq> 0))" for i
    unfolding index_loop_compnd_Some
    using first_match_cong[of n "\<lambda>k. name (memb c ! nat k)" "\<lambda>k. fst (members dt ! nat k)" i
        "\<lambda>s. HDstrcmp s nm = 0", OF f] by blast
  have 3: "?r = None \<longleftrightarrow>
      (\<forall>k. 0 \<le> k \<and> k < n \<longrightarrow> HDstrcmp (fst (members dt ! nat k)) nm \<noteq> 0)"
    unfolding index_loop_compnd_None
    using no_match_cong[of n "\<lambda>k. name (memb c ! nat k)" "\<lambda>k. fst (members dt ! nat k)"
        "\<lambda>s. HDstrcmp s nm = 0", OF f] by blast
  show ?thesis by (rule member_index_cases[OF 1 2 3])
next
  case (Enumer e)
  with n ok have nn: "enumer_nmembs e = n" "n = int (length (enumer_name e))"
    by (simp_all add: H5T_get_nmembers_def count_ok_def)
  have f: "\<And>k. 0 \<le> k \<Longrightarrow> k < n \<Longrightarrow> enumer_name e ! nat k = fst (members dt ! nat k)"
    using Enumer nn by (simp add: members_def nat_less_iff)
  let ?r = "index_loop_enum (enumer_name e) nm n 0"
  have 1: "H5Tget_member_index verify type_id nm
      = (case ?r of Some i \<Rightarrow> (i, None) | None \<Rightarrow> (FAIL, None))"
    using v Enumer nn by (simp add: H5Tget_member_index_def)
  have 2: "?r = Some i \<longleftrightarrow> 0 \<le> i \<and> i < n \<and>
            (HDstrcmp (fst (members dt ! nat i)) nm = 0 \<and>
             (\<forall>k. 0 \<le> k \<and> k < i \<longrightarrow> HDstrcmp (fst (members dt ! nat k)) nm \<noteq> 0))" for i
    unfolding index_loop_enum_Some
    using first_match_cong[of n "\<lambda>k. enumer_name e ! nat k" "\<lambda>k. fst (members dt ! nat k)" i
        "\<lambda>s. HDstrcmp s nm = 0", OF f] by blast
  have 3: "?r = None \<longleftrightarrow>
      (\<forall>k. 0 \<le> k \<and> k < n \<longrightarrow> HDstrcmp (fst (members dt ! nat k)) nm \<noteq> 0)"
    unfolding index_loop_enum_None
    using no_match_cong[of n "\<lambda>k. enumer_name e ! nat k" "\<lambda>k. fst (members dt ! nat k)"
        "\<lambda>s. HDstrcmp s nm = 0", OF f] by blast
  show ?thesis by (rule member_index_cases[OF 1 2 3])
qed

lemma c_str_idem: "c_str (c_str s) = c_str s"
  by (induction s) (simp_all add: c_str_Cons)

lemma members_length:
  "count_ok dt \<Longrightarrow> H5T_get_nmembers dt = Inr n \<Longrightarrow> int (length (members dt)) = n"
  by (cases "u dt") (simp_all add: count_ok_def H5T_get_nmembers_def members_def)

text \<open>
  Claim C6. For a record or enumeration descriptor with \<open>n\<close> members,
  \<^verbatim>\<open>H5T_get_member_name\<close> fails with \<open>InvalidIndex\<close> exactly when the member number is
  negative or at least \<open>n\<close>; so it fails at \<open>-1\<close> and at \<open>n\<close>. When \<open>n = 0\<close> it fails at
  every member number, and \<^verbatim>\<open>H5Tget_member_index\<close> returns \<^verbatim>\<open>FAIL\<close> with no error recorded
  (not found) for every name.
\<close>

theorem member_name_invalid_index:
  assumes "H5T_get_nmembers dt = Inr n"
  shows "(H5T_get_member_name dt membno = Inl InvalidIndex \<longleftrightarrow> membno < 0 \<or> n \<le> membno)
     \<and> H5T_get_member_name dt (- 1) = Inl InvalidIndex
     \<and> H5T_get_member_name dt n = Inl InvalidIndex
     \<and> (n = 0 \<longrightarrow>
          H5T_get_member_name dt membno = Inl InvalidIndex \<and>
          (verify type_id = Some dt \<longrightarrow>
             H5Tget_member_index verify type_id nm = (FAIL, None)))"
proof (cases "u dt")
  case Other_class
  with assms show ?thesis by (simp add: H5T_get_nmembers_def)
next
  case (Compnd c)
  with assms have n: "compnd_nmembs c = n" by (simp add: H5T_get_nmembers_def)
  have "n = 0 \<Longrightarrow> index_loop_compnd (memb c) nm n 0 = None"
    by (subst index_loop_compnd.simps) simp
  with Compnd n show ?thesis
    by (auto simp: H5T_get_member_name_def InvalidIndex_def H5Tget_member_index_def)
next
  case (Enumer e)
  with assms have n: "enumer_nmembs e = n" by (simp add: H5T_get_nmembers_def)
  have "n = 0 \<Longrightarrow> index_loop_enum (enumer_name e) nm n 0 = None"
    by (subst index_loop_enum.simps) simp
  with Enumer n show ?thesis
    by (auto simp: H5T_get_member_name_def InvalidIndex_def H5Tget_member_index_def)
qed

theorem member_name_invalid_index_witness:
  "H5T_get_nmembers scenario_A = Inr 3
   \<and> H5T_get_member_name scenario_A 3 = Inl InvalidIndex
   \<and> H5T_get_member_name scenario_A (- 1) = Inl InvalidIndex
   \<and> H5T_get_member_name scenario_A 2 \<noteq> Inl InvalidIndex
   \<and> H5T_get_nmembers empty_record = Inr 0
   \<and> H5T_get_member_name empty_record 0 = Inl InvalidIndex
   \<and> H5Tget_member_index (\<lambda>_. Some empty_record) 1 ''a'' = (FAIL, None)"
proof -
  have a: "H5T_get_nmembers scenario_A = Inr 3"
    by (simp add: H5T_get_nmembers_def scenario_A_def)
  have e: "H5T_get_nmembers empty_record = Inr 0"
    by (simp add: H5T_get_nmembers_def empty_record_def)
  show ?thesis
    using a e member_name_invalid_index[where membno = 2, OF a]
      member_name_invalid_index[where verify = "\<lambda>_. Some empty_record" and type_id = 1
        and nm = "''a''" and membno = 0, OF e]
    by simp
qed

text \<open>
  Claim C7. In a record or enumeration descriptor whose member names are unique (as C
  strings), looking up the name returned for a valid member number \<open>i\<close> returns \<open>i\<close>.
  Nothing is assumed of the sort state or of the order of the members.
\<close>

theorem member_index_of_member_name:
  assumes v: "verify type_id = Some dt" and ok: "count_ok dt"
    and n: "H5T_get_nmembers dt = Inr n"
    and d: "distinct (map (\<lambda>p. c_str (fst p)) (members dt))"
    and i: "0 \<le> i" "i < n"
  shows "\<exists>nm. H5T_get_member_name dt i = Inr nm \<and>
               H5Tget_member_index verify type_id nm = (i, None)"
proof -
  let ?nm = "c_str (fst (members dt ! nat i))"
  have l: "int (length (members dt)) = n" by (rule members_length[OF ok n])
  have 1: "H5T_get_member_name dt i = Inr ?nm" by (rule member_name_at[OF ok n i])
  have 2: "HDstrcmp (fst (members dt ! nat i)) ?nm = 0"
    by (simp add: HDstrcmp_eq_0_iff c_str_idem)
  have 3: "\<forall>k. 0 \<le> k \<and> k < i \<longrightarrow> HDstrcmp (fst (members dt ! nat k)) ?nm \<noteq> 0"
  proof (intro allI impI)
    fix k assume k: "0 \<le> k \<and> k < i"
    then have kl: "nat k < length (members dt)" "nat i < length (members dt)" "nat k \<noteq> nat i"
      using i l by auto
    have "map (\<lambda>p. c_str (fst p)) (members dt) ! nat k \<noteq> map (\<lambda>p. c_str (fst p)) (members dt) ! nat i"
      using d kl nth_eq_iff_index_eq[of "map (\<lambda>p. c_str (fst p)) (members dt)" "nat k" "nat i"]
      by simp
    then have "c_str (fst (members dt ! nat k)) \<noteq> c_str (fst (members dt ! nat i))"
      using kl by simp
    then show "HDstrcmp (fst (members dt ! nat k)) ?nm \<noteq> 0"
      by (simp add: HDstrcmp_eq_0_iff c_str_idem)
  qed
  from member_index_first[where verify = verify and type_id = type_id and nm = ?nm and i = i,
      OF v ok n] i 2 3
  have "H5Tget_member_index verify type_id ?nm = (i, None)" by blast
  with 1 show ?thesis by blast
qed

theorem member_index_of_member_name_witness:
  "(\<lambda>_. Some scenario_A) (0::int) = Some scenario_A \<and> count_ok scenario_A
   \<and> H5T_get_nmembers scenario_A = Inr 3
   \<and> distinct (map (\<lambda>p. c_str (fst p)) (members scenario_A))
   \<and> H5T_get_member_name scenario_A 2 = Inr ''c''
   \<and> H5Tget_member_index (\<lambda>_. Some scenario_A) 0 ''c'' = (2, None)"
proof -
  have v: "(\<lambda>_. Some scenario_A) (0::int) = Some scenario_A" by simp
  have ok: "count_ok scenario_A" by (simp add: count_ok_def scenario_A_def)
  have n: "H5T_get_nmembers scenario_A = Inr 3"
    by (simp add: H5T_get_nmembers_def scenario_A_def)
  have d: "distinct (map (\<lambda>p. c_str (fst p)) (members scenario_A))"
    by (simp add: members_def scenario_A_def c_str_def)
  have nm: "H5T_get_member_name scenario_A 2 = Inr ''c''"
    by (simp add: H5T_get_member_name_def scenario_A_def H5MM_xstrdup_def c_str_def)
  from member_index_of_member_name[where verify = "\<lambda>_. Some scenario_A" and type_id = 0
      and i = 2, OF v ok n d] nm
  have "H5Tget_member_index (\<lambda>_. Some scenario_A) 0 ''c'' = (2, None)" by simp
  with v ok n d nm show ?thesis by blast
qed

text \<open>
  Claim C8. \<^verbatim>\<open>H5Tget_member_index\<close> returns a member number \<open>i\<close> exactly when \<open>i\<close> is the
  lowest number, in the current order, of a member whose name equals the argument byte
  for byte; it returns \<^verbatim>\<open>FAIL\<close> with no error recorded exactly when no member has the name.
  With a name held twice, the lower current number wins, so the member found depends on
  the current order.
\<close>

theorem member_index_first_match:
  assumes v: "verify type_id = Some dt" and ok: "count_ok dt"
    and n: "H5T_get_nmembers dt = Inr n"
  shows "(H5Tget_member_index verify type_id nm = (i, None) \<and> 0 \<le> i \<longleftrightarrow>
            0 \<le> i \<and> i < n \<and> c_str (fst (members dt ! nat i)) = c_str nm \<and>
            (\<forall>k. 0 \<le> k \<and> k < i \<longrightarrow> c_str (fst (members dt ! nat k)) \<noteq> c_str nm))
     \<and> (H5Tget_member_index verify type_id nm = (FAIL, None) \<longleftrightarrow>
            (\<forall>k. 0 \<le> k \<and> k < n \<longrightarrow> c_str (fst (members dt ! nat k)) \<noteq> c_str nm))"
  using member_index_first[where verify = verify and type_id = type_id and nm = nm and i = i,
      OF v ok n]
  by (simp only: HDstrcmp_eq_0_iff)

theorem member_index_first_match_witness:
  "(\<lambda>_. Some duplicate_record) (0::int) = Some duplicate_record \<and> count_ok duplicate_record
   \<and> H5T_get_nmembers duplicate_record = Inr 3
   \<and> H5Tget_member_index (\<lambda>_. Some duplicate_record) 0 ''x'' = (0, None)
   \<and> members duplicate_record ! 0 = (''x'', Inl 8)
   \<and> members duplicate_record ! 2 = (''x'', Inl 0)
   \<and> H5Tget_member_index (\<lambda>_. Some duplicate_record) 0 ''y'' = (1, None)
   \<and> H5Tget_member_index (\<lambda>_. Some duplicate_record) 0 ''z'' = (FAIL, None)
   \<and> H5T_sort_value True duplicate_record None
        = Returned (SUCCEED, duplicate_record_by_position, None)
   \<and> H5Tget_member_index (\<lambda>_. Some duplicate_record_by_position) 0 ''x'' = (0, None)
   \<and> members duplicate_record_by_position ! 0 = (''x'', Inl 0)"
proof -
  have v: "(\<lambda>_. Some duplicate_record) (0::int) = Some duplicate_record" by simp
  have ok: "count_ok duplicate_record" by (simp add: count_ok_def duplicate_record_def)
  have n: "H5T_get_nmembers duplicate_record = Inr 3"
    by (simp add: H5T_get_nmembers_def duplicate_record_def)
  have m: "members duplicate_record = [(''x'', Inl 8), (''y'', Inl 4), (''x'', Inl 0)]"
    by (simp add: members_def duplicate_record_def)
  have x: "H5Tget_member_index (\<lambda>_. Some duplicate_record) 0 ''x'' = (0, None)"
    using member_index_first_match[where verify = "\<lambda>_. Some duplicate_record"
        and type_id = 0 and nm = "''x''" and i = 0, OF v ok n]
    by (simp add: m c_str_def)
  have y: "H5Tget_member_index (\<lambda>_. Some duplicate_record) 0 ''y'' = (1, None)"
    using member_index_first_match[where verify = "\<lambda>_. Some duplicate_record"
        and type_id = 0 and nm = "''y''" and i = 1, OF v ok n]
    by (simp add: m c_str_def)
  have "\<forall>k. 0 \<le> k \<and> k < (3::int) \<longrightarrow> c_str (fst (members duplicate_record ! nat k)) \<noteq> c_str ''z''"
  proof (intro allI impI)
    fix k :: int assume "0 \<le> k \<and> k < 3"
    then have "k = 0 \<or> k = 1 \<or> k = 2" by auto
    then show "c_str (fst (members duplicate_record ! nat k)) \<noteq> c_str ''z''"
      by (auto simp: m c_str_def)
  qed
  then have z: "H5Tget_member_index (\<lambda>_. Some duplicate_record) 0 ''z'' = (FAIL, None)"
    using member_index_first_match[where verify = "\<lambda>_. Some duplicate_record"
        and type_id = 0 and nm = "''z''", OF v ok n]
    by simp
  have s: "H5T_sort_value True duplicate_record None
        = Returned (SUCCEED, duplicate_record_by_position, None)"
    by code_simp
  have x': "H5Tget_member_index (\<lambda>_. Some duplicate_record_by_position) 0 ''x'' = (0, None)"
    by (simp add: H5Tget_member_index_def duplicate_record_by_position_def
        index_loop_compnd.simps)
  have m': "members duplicate_record_by_position ! 0 = (''x'', Inl 0)"
    by (simp add: members_def duplicate_record_by_position_def)
  from v ok n x y z s x' m' show ?thesis by (simp add: m)
qed

section \<open>Properties of the sorts\<close>

lemma mset_zip_fst:
  assumes "length ys' = length xs'" and "length ys = length xs"
    and "mset (zip xs' ys') = mset (zip xs ys)"
  shows "mset xs' = mset xs"
proof -
  have "mset (map fst (zip xs' ys')) = mset (map fst (zip xs ys))"
    unfolding mset_map by (simp only: assms(3))
  then show ?thesis using assms(1,2) by simp
qed

lemma sort_members_mset:
  assumes ok: "H5T_ok dt" and mo: "map_ok dt map_arr"
    and ok': "H5T_ok dt'" and mo': "map_ok dt' map_arr'"
    and l: "length (members dt') = length (members dt)"
    and ms: "mset (zip (members dt') (map_list (length (members dt)) map_arr'))
       = mset (zip (members dt) (map_list (length (members dt)) map_arr))"
    and k: "u dt = Other_class \<longleftrightarrow> u dt' = Other_class"
  shows "mset (members dt') = mset (members dt)"
proof (cases "u dt = Other_class")
  case True
  then show ?thesis using k by (simp add: members_def)
next
  case False
  then have f': "u dt' \<noteq> Other_class" using k by simp
  have a: "length (map_list (length (members dt)) map_arr) = length (members dt)"
    by (rule map_ok_length[OF ok mo False])
  have b: "length (map_list (length (members dt)) map_arr') = length (members dt')"
    using map_ok_length[OF ok' mo' f'] l by simp
  show ?thesis by (rule mset_zip_fst[OF b a ms])
qed

lemma H5T_get_nmembers_kind:
  "H5T_get_nmembers dt' = H5T_get_nmembers dt \<Longrightarrow> (u dt = Other_class \<longleftrightarrow> u dt' = Other_class)"
  by (cases "u dt"; cases "u dt'") (simp_all add: H5T_get_nmembers_def)

text \<open>
  Claim C9. A sort that returns leaves the number of members unchanged, and the members
  afterwards, as pairs of a name and its byte offset (record) or value (enumeration), are
  a permutation of the members before: the two sequences are equal as multisets, so every
  pair present before is present afterwards, as often, and no pair is new.
\<close>

theorem sort_permutes_members:
  assumes ok: "H5T_ok dt" and mo: "map_ok dt map_arr"
  shows "(H5T_sort_value ndebug dt map_arr = Returned (r, dt', map_arr') \<longrightarrow>
            H5T_get_nmembers dt' = H5T_get_nmembers dt \<and>
            mset (members dt') = mset (members dt))
       \<and> (H5T_sort_name ndebug dt map_arr = Returned (r, dt', map_arr') \<longrightarrow>
            H5T_get_nmembers dt' = H5T_get_nmembers dt \<and>
            mset (members dt') = mset (members dt))"
proof (intro conjI impI)
  assume run: "H5T_sort_value ndebug dt map_arr = Returned (r, dt', map_arr')"
  note e = H5T_sort_value_effect[OF ok mo run]
  from e show n: "H5T_get_nmembers dt' = H5T_get_nmembers dt" by blast
  from e have "H5T_ok dt'" "map_ok dt' map_arr'" "length (members dt') = length (members dt)"
    "mset (zip (members dt') (map_list (length (members dt)) map_arr'))
       = mset (zip (members dt) (map_list (length (members dt)) map_arr))"
    by blast+
  then show "mset (members dt') = mset (members dt)"
    using sort_members_mset[OF ok mo] H5T_get_nmembers_kind[OF n] by blast
next
  assume run: "H5T_sort_name ndebug dt map_arr = Returned (r, dt', map_arr')"
  note e = H5T_sort_name_effect[OF ok mo run]
  from e show n: "H5T_get_nmembers dt' = H5T_get_nmembers dt" by blast
  from e have "H5T_ok dt'" "map_ok dt' map_arr'" "length (members dt') = length (members dt)"
    "mset (zip (members dt') (map_list (length (members dt)) map_arr'))
       = mset (zip (members dt) (map_list (length (members dt)) map_arr))"
    by blast+
  then show "mset (members dt') = mset (members dt)"
    using sort_members_mset[OF ok mo] H5T_get_nmembers_kind[OF n] by blast
qed

theorem sort_permutes_members_witness:
  "H5T_ok scenario_A \<and> map_ok scenario_A None
   \<and> H5T_sort_value False scenario_A None = Returned (SUCCEED, scenario_A_by_position, None)
   \<and> H5T_get_nmembers scenario_A_by_position = H5T_get_nmembers scenario_A
   \<and> mset (members scenario_A_by_position) = mset (members scenario_A)
   \<and> H5T_ok scenario_B_le \<and> map_ok scenario_B_le None
   \<and> H5T_sort_name False scenario_B_le None = Returned (SUCCEED, scenario_B_le_by_name, None)
   \<and> H5T_get_nmembers scenario_B_le_by_name = H5T_get_nmembers scenario_B_le
   \<and> mset (members scenario_B_le_by_name) = mset (members scenario_B_le)"
proof -
  have a: "H5T_ok scenario_A" "map_ok scenario_A None"
    by (simp_all add: H5T_ok_def map_ok_def scenario_A_def)
  have b: "H5T_ok scenario_B_le" "map_ok scenario_B_le None"
    by (simp_all add: H5T_ok_def map_ok_def scenario_B_le_def)
  have ra: "H5T_sort_value False scenario_A None
      = Returned (SUCCEED, scenario_A_by_position, None)"
    by code_simp
  have rb: "H5T_sort_name False scenario_B_le None
      = Returned (SUCCEED, scenario_B_le_by_name, None)"
    by code_simp
  show ?thesis
    using a b ra rb
      sort_permutes_members[OF a, of False SUCCEED scenario_A_by_position None]
      sort_permutes_members[OF b, of False SUCCEED scenario_B_le_by_name None]
    by simp
qed

lemma sorted_adjacent_int:
  assumes s: "sorted (map f xs)" and i: "0 \<le> i" "i + 1 < int (length xs)"
  shows "f (xs ! nat i) \<le> f (xs ! nat (i + 1))"
proof -
  have "nat i \<le> nat (i + 1)" "nat (i + 1) < length (map f xs)" using i by simp_all
  from sorted_nth_mono[OF s this] i show ?thesis by simp
qed

text \<open>
  Claim C1. After \<^verbatim>\<open>H5T_sort_value\<close> returns on a record descriptor, the byte offsets of
  every two adjacent members are in non-decreasing order; after \<^verbatim>\<open>H5T_sort_name\<close> returns on
  a record or enumeration descriptor, the names of every two adjacent members are in
  non-decreasing \<^verbatim>\<open>strcmp\<close> order, which is the bytewise lexicographic order of the C
  strings. The descriptor is one of the data model: its \<open>sortState\<close> tells the truth
  (\<open>sort_state_ok\<close>), since a call on a descriptor already marked as sorted returns at once;
  both sorts keep that invariant.
\<close>

theorem sort_order_invariant:
  assumes ok: "H5T_ok dt" and mo: "map_ok dt map_arr" and inv: "sort_state_ok dt"
  shows "(H5T_sort_value ndebug dt map_arr = Returned (r, dt', map_arr') \<longrightarrow>
            sort_state_ok dt' \<and>
            (\<forall>c'. u dt' = Compnd c' \<longrightarrow>
               (\<forall>i. 0 \<le> i \<and> i + 1 < compnd_nmembs c' \<longrightarrow>
                  offset (memb c' ! nat i) \<le> offset (memb c' ! nat (i + 1)))))
       \<and> (H5T_sort_name ndebug dt map_arr = Returned (r, dt', map_arr') \<longrightarrow>
            sort_state_ok dt' \<and>
            (\<forall>c'. u dt' = Compnd c' \<longrightarrow>
               (\<forall>i. 0 \<le> i \<and> i + 1 < compnd_nmembs c' \<longrightarrow>
                  HDstrcmp (name (memb c' ! nat i)) (name (memb c' ! nat (i + 1))) \<le> 0 \<and>
                  c_str (name (memb c' ! nat i)) \<le> c_str (name (memb c' ! nat (i + 1))))) \<and>
            (\<forall>e'. u dt' = Enumer e' \<longrightarrow>
               (\<forall>i. 0 \<le> i \<and> i + 1 < enumer_nmembs e' \<longrightarrow>
                  HDstrcmp (enumer_name e' ! nat i) (enumer_name e' ! nat (i + 1)) \<le> 0 \<and>
                  c_str (enumer_name e' ! nat i) \<le> c_str (enumer_name e' ! nat (i + 1)))))"
proof (intro conjI impI allI)
  assume run: "H5T_sort_value ndebug dt map_arr = Returned (r, dt', map_arr')"
  from H5T_sort_value_order[OF ok mo inv run] show "sort_state_ok dt'" by blast
next
  assume run: "H5T_sort_name ndebug dt map_arr = Returned (r, dt', map_arr')"
  from H5T_sort_name_order[OF ok mo inv run] show "sort_state_ok dt'" by blast
next
  fix c' i
  assume run: "H5T_sort_value ndebug dt map_arr = Returned (r, dt', map_arr')"
    and c': "u dt' = Compnd c'" and i: "0 \<le> i \<and> i + 1 < compnd_nmembs c'"
  from H5T_sort_value_effect[OF ok mo run] have "H5T_ok dt'" by blast
  with c' have n: "compnd_nmembs c' = int (length (memb c'))" by (simp add: H5T_ok_def)
  from H5T_sort_value_order[OF ok mo inv run] c'
  have s: "sorted (map offset (memb c'))" by simp
  show "offset (memb c' ! nat i) \<le> offset (memb c' ! nat (i + 1))"
    using sorted_adjacent_int[OF s] i n by simp
next
  fix c' i
  assume run: "H5T_sort_name ndebug dt map_arr = Returned (r, dt', map_arr')"
    and c': "u dt' = Compnd c'" and i: "0 \<le> i \<and> i + 1 < compnd_nmembs c'"
  from H5T_sort_name_effect[OF ok mo run] have "H5T_ok dt'" by blast
  with c' have n: "compnd_nmembs c' = int (length (memb c'))" by (simp add: H5T_ok_def)
  from H5T_sort_name_order[OF ok mo inv run] c'
  have s: "sorted (map (\<lambda>m. c_str (name m)) (memb c'))" by simp
  show le: "c_str (name (memb c' ! nat i)) \<le> c_str (name (memb c' ! nat (i + 1)))"
    using sorted_adjacent_int[OF s] i n by simp
  then show "HDstrcmp (name (memb c' ! nat i)) (name (memb c' ! nat (i + 1))) \<le> 0"
    by (simp only: HDstrcmp_le_0_iff)
next
  fix e' i
  assume run: "H5T_sort_name ndebug dt map_arr = Returned (r, dt', map_arr')"
    and e': "u dt' = Enumer e'" and i: "0 \<le> i \<and> i + 1 < enumer_nmembs e'"
  from H5T_sort_name_effect[OF ok mo run] have "H5T_ok dt'" by blast
  with e' have n: "enumer_nmembs e' = int (length (enumer_name e'))" by (simp add: H5T_ok_def)
  from H5T_sort_name_order[OF ok mo inv run] e'
  have s: "sorted (map c_str (enumer_name e'))" by simp
  show le: "c_str (enumer_name e' ! nat i) \<le> c_str (enumer_name e' ! nat (i + 1))"
    using sorted_adjacent_int[OF s] i n by simp
  then show "HDstrcmp (enumer_name e' ! nat i) (enumer_name e' ! nat (i + 1)) \<le> 0"
    by (simp only: HDstrcmp_le_0_iff)
qed

theorem sort_order_invariant_witness:
  "H5T_ok scenario_A \<and> map_ok scenario_A None \<and> sort_state_ok scenario_A
   \<and> H5T_sort_value False scenario_A None = Returned (SUCCEED, scenario_A_by_position, None)
   \<and> map offset (memb (case u scenario_A_by_position of Compnd c \<Rightarrow> c)) = [0, 4, 8]
   \<and> H5T_sort_name False scenario_A None = Returned (SUCCEED, scenario_A_by_name, None)
   \<and> map name (memb (case u scenario_A_by_name of Compnd c \<Rightarrow> c)) = [''a'', ''b'', ''c'']
   \<and> H5T_ok scenario_B_le \<and> map_ok scenario_B_le None \<and> sort_state_ok scenario_B_le
   \<and> H5T_sort_name False scenario_B_le None = Returned (SUCCEED, scenario_B_le_by_name, None)
   \<and> enumer_name (case u scenario_B_le_by_name of Enumer e \<Rightarrow> e) = [''GREEN'', ''RED'']
   \<and> HDstrcmp ''GREEN'' ''RED'' \<le> 0"
proof -
  have a: "H5T_ok scenario_A" "map_ok scenario_A None" "sort_state_ok scenario_A"
    by (simp_all add: H5T_ok_def map_ok_def sort_state_ok_def scenario_A_def)
  have b: "H5T_ok scenario_B_le" "map_ok scenario_B_le None" "sort_state_ok scenario_B_le"
    by (simp_all add: H5T_ok_def map_ok_def sort_state_ok_def scenario_B_le_def)
  have ra: "H5T_sort_value False scenario_A None
      = Returned (SUCCEED, scenario_A_by_position, None)"
    by code_simp
  have rn: "H5T_sort_name False scenario_A None
      = Returned (SUCCEED, scenario_A_by_name, None)"
    by code_simp
  have rb: "H5T_sort_name False scenario_B_le None
      = Returned (SUCCEED, scenario_B_le_by_name, None)"
    by code_simp
  have ub: "u scenario_B_le_by_name
      = Enumer \<lparr>enumer_nmembs = 2, enumer_sorted = H5T_SORT_NAME,
                enumer_value = [1, 0, 0, 0, 2, 0, 0, 0],
                enumer_name = [''GREEN'', ''RED'']\<rparr>"
    by (simp add: scenario_B_le_by_name_def)
  from sort_order_invariant[OF b, of False SUCCEED scenario_B_le_by_name None] rb ub
  have "HDstrcmp ''GREEN'' ''RED'' \<le> 0"
    by (auto dest!: spec[of _ 0])
  with a b ra rn rb show ?thesis
    by (simp add: scenario_A_by_position_def scenario_A_by_name_def scenario_B_le_by_name_def)
qed

lemma zip_identity_nth:
  assumes "p \<in> set (zip xs (map int [0..<length xs]))"
  shows "0 \<le> snd p \<and> nat (snd p) < length xs \<and> fst p = xs ! nat (snd p)"
proof -
  from assms obtain k where k: "k < length xs" "p = (xs ! k, int k)"
    by (auto simp: in_set_conv_nth)
  then show ?thesis by simp
qed

lemma map_tracking:
  assumes ok: "H5T_ok dt" and m: "map_arr = Some (map int [0..<length (members dt)])"
    and ok': "H5T_ok dt'" and mo': "map_ok dt' map_arr'"
    and l: "length (members dt') = length (members dt)"
    and nn: "map_arr' = None \<longleftrightarrow> map_arr = None"
    and k: "u dt' \<noteq> Other_class"
    and ms: "mset (zip (members dt') (map_list (length (members dt)) map_arr'))
       = mset (zip (members dt) (map_list (length (members dt)) map_arr))"
  shows "\<exists>m'. map_arr' = Some m' \<and> length m' = length (members dt) \<and>
     (\<forall>k<length (members dt).
        0 \<le> m' ! k \<and> nat (m' ! k) < length (members dt) \<and>
        members dt' ! k = members dt ! nat (m' ! k))"
proof -
  let ?n = "length (members dt)"
  from nn m obtain m' where m': "map_arr' = Some m'" by (cases map_arr') auto
  have ml: "map_list ?n map_arr = map int [0..<?n]" "map_list ?n map_arr' = m'"
    using m m' by (simp_all add: map_list_def)
  have "u dt' \<noteq> Other_class" using k by simp
  from map_ok_length[OF ok' mo' this] l ml have len: "length m' = ?n" by simp
  have "\<forall>k<?n. 0 \<le> m' ! k \<and> nat (m' ! k) < ?n \<and> members dt' ! k = members dt ! nat (m' ! k)"
  proof (intro allI impI)
    fix k assume k: "k < ?n"
    then have "(members dt' ! k, m' ! k) \<in> set (zip (members dt') m')"
      using l len by (auto simp: in_set_conv_nth intro!: exI[of _ k])
    also have "set (zip (members dt') m') = set (zip (members dt) (map int [0..<?n]))"
      using ms ml by (metis set_mset_mset)
    finally have "(members dt' ! k, m' ! k) \<in> set (zip (members dt) (map int [0..<?n]))" .
    from zip_identity_nth[OF this]
    show "0 \<le> m' ! k \<and> nat (m' ! k) < ?n \<and> members dt' ! k = members dt ! nat (m' ! k)"
      by simp
  qed
  with m' len show ?thesis by blast
qed

text \<open>
  Claim C2, amended. The sorts exchange \<open>map[j]\<close> and \<open>map[j+1]\<close> with the members and
  never initialise \<open>map\<close>. When the caller passes the identity, \<open>map[k] = k\<close> for the \<open>n\<close>
  members of a record or enumeration descriptor, then after a sort that returns, the
  member at every position \<open>k\<close> is the member that was at index \<open>map[k]\<close> before the call,
  and \<open>map[k]\<close> is an index below \<open>n\<close>. In Scenario A the map \<open>[0,1,2]\<close> becomes \<open>[1,2,0]\<close>.
\<close>

theorem sort_map_tracks_identity:
  assumes ok: "H5T_ok dt" and k: "u dt \<noteq> Other_class"
    and m: "map_arr = Some (map int [0..<length (members dt)])"
  shows "(H5T_sort_value ndebug dt map_arr = Returned (r, dt', map_arr') \<longrightarrow>
            (\<exists>m'. map_arr' = Some m' \<and> length m' = length (members dt) \<and>
               (\<forall>k<length (members dt).
                  0 \<le> m' ! k \<and> nat (m' ! k) < length (members dt) \<and>
                  members dt' ! k = members dt ! nat (m' ! k))))
       \<and> (H5T_sort_name ndebug dt map_arr = Returned (r, dt', map_arr') \<longrightarrow>
            (\<exists>m'. map_arr' = Some m' \<and> length m' = length (members dt) \<and>
               (\<forall>k<length (members dt).
                  0 \<le> m' ! k \<and> nat (m' ! k) < length (members dt) \<and>
                  members dt' ! k = members dt ! nat (m' ! k))))
       \<and> H5T_sort_value ndebug scenario_A (Some [0, 1, 2])
            = Returned (SUCCEED, scenario_A_by_position, Some [1, 2, 0])"
proof (intro conjI impI)
  have mo: "map_ok dt map_arr"
    using ok k m by (cases "u dt") (simp_all add: map_ok_def H5T_ok_def members_def)
  assume run: "H5T_sort_value ndebug dt map_arr = Returned (r, dt', map_arr')"
  note e = H5T_sort_value_effect[OF ok mo run]
  from e have n: "H5T_get_nmembers dt' = H5T_get_nmembers dt" by blast
  have k': "u dt' \<noteq> Other_class" using H5T_get_nmembers_kind[OF n] k by simp
  from e have "H5T_ok dt'" "map_ok dt' map_arr'" "length (members dt') = length (members dt)"
    "map_arr' = None \<longleftrightarrow> map_arr = None"
    "mset (zip (members dt') (map_list (length (members dt)) map_arr'))
       = mset (zip (members dt) (map_list (length (members dt)) map_arr))"
    by blast+
  from map_tracking[OF ok m this(1,2,3,4) k' this(5)]
  show "\<exists>m'. map_arr' = Some m' \<and> length m' = length (members dt) \<and>
             (\<forall>k<length (members dt).
                0 \<le> m' ! k \<and> nat (m' ! k) < length (members dt) \<and>
                members dt' ! k = members dt ! nat (m' ! k))" .
next
  have mo: "map_ok dt map_arr"
    using ok k m by (cases "u dt") (simp_all add: map_ok_def H5T_ok_def members_def)
  assume run: "H5T_sort_name ndebug dt map_arr = Returned (r, dt', map_arr')"
  note e = H5T_sort_name_effect[OF ok mo run]
  from e have n: "H5T_get_nmembers dt' = H5T_get_nmembers dt" by blast
  have k': "u dt' \<noteq> Other_class" using H5T_get_nmembers_kind[OF n] k by simp
  from e have "H5T_ok dt'" "map_ok dt' map_arr'" "length (members dt') = length (members dt)"
    "map_arr' = None \<longleftrightarrow> map_arr = None"
    "mset (zip (members dt') (map_list (length (members dt)) map_arr'))
       = mset (zip (members dt) (map_list (length (members dt)) map_arr))"
    by blast+
  from map_tracking[OF ok m this(1,2,3,4) k' this(5)]
  show "\<exists>m'. map_arr' = Some m' \<and> length m' = length (members dt) \<and>
             (\<forall>k<length (members dt).
                0 \<le> m' ! k \<and> nat (m' ! k) < length (members dt) \<and>
                members dt' ! k = members dt ! nat (m' ! k))" .
next
  show "H5T_sort_value ndebug scenario_A (Some [0, 1, 2])
      = Returned (SUCCEED, scenario_A_by_position, Some [1, 2, 0])"
  proof (cases ndebug)
    case True
    have "H5T_sort_value True scenario_A (Some [0, 1, 2])
        = Returned (SUCCEED, scenario_A_by_position, Some [1, 2, 0])" by code_simp
    with True show ?thesis by simp
  next
    case False
    have "H5T_sort_value False scenario_A (Some [0, 1, 2])
        = Returned (SUCCEED, scenario_A_by_position, Some [1, 2, 0])" by code_simp
    with False show ?thesis by simp
  qed
qed

theorem sort_map_tracks_identity_witness:
  "H5T_ok scenario_A \<and> u scenario_A \<noteq> Other_class
   \<and> Some [0, 1, 2] = Some (map int [0..<length (members scenario_A)])
   \<and> H5T_sort_name False scenario_A (Some [0, 1, 2])
        = Returned (SUCCEED, scenario_A_by_name, Some [1, 0, 2])
   \<and> members scenario_A_by_name ! 0 = members scenario_A ! nat ([1, 0, 2] ! 0)
   \<and> members scenario_A_by_name ! 1 = members scenario_A ! nat ([1, 0, 2] ! 1)
   \<and> members scenario_A_by_name ! 2 = members scenario_A ! nat ([1, 0, 2] ! 2)
   \<and> H5T_sort_value False scenario_A (Some [0, 1, 2])
        = Returned (SUCCEED, scenario_A_by_position, Some [1, 2, 0])"
proof -
  have ok: "H5T_ok scenario_A" by (simp add: H5T_ok_def scenario_A_def)
  have k: "u scenario_A \<noteq> Other_class" by (simp add: scenario_A_def)
  have l: "length (members scenario_A) = 3" by (simp add: members_def scenario_A_def)
  have m: "Some [0, 1, 2] = Some (map int [0..<length (members scenario_A)])"
    by (simp add: l upt_rec)
  have rn: "H5T_sort_name False scenario_A (Some [0, 1, 2])
      = Returned (SUCCEED, scenario_A_by_name, Some [1, 0, 2])"
    by code_simp
  note t = sort_map_tracks_identity[OF ok k m, of False SUCCEED scenario_A_by_name "Some [1, 0, 2]"]
  from t rn have a: "\<forall>k<3. members scenario_A_by_name ! k = members scenario_A ! nat ([1, 0, 2] ! k)"
    by (simp add: l)
  have "members scenario_A_by_name ! 0 = members scenario_A ! nat ([1, 0, 2] ! 0)"
    "members scenario_A_by_name ! 1 = members scenario_A ! nat ([1, 0, 2] ! 1)"
    "members scenario_A_by_name ! 2 = members scenario_A ! nat ([1, 0, 2] ! 2)"
    using a by simp_all
  with ok k m rn t show ?thesis by blast
qed

text \<open>
  The claim as stated, for every caller-supplied \<open>map\<close> of length \<open>n\<close>, fails: on the map
  \<open>[0,0,0]\<close> the sort of Scenario A leaves \<open>[0,0,0]\<close>; the member now at position 0 is
  \<open>"a"\<close>, the member originally at index \<open>map[0] = 0\<close> is \<open>"b"\<close>.
\<close>

theorem sort_map_arbitrary_counterexample:
  "H5T_sort_value True scenario_A (Some [0, 0, 0])
     = Returned (SUCCEED, scenario_A_by_position, Some [0, 0, 0])
   \<and> fst (members scenario_A_by_position ! 0) = ''a''
   \<and> fst (members scenario_A ! nat ([0, 0, 0] ! 0)) = ''b''"
proof -
  have "H5T_sort_value True scenario_A (Some [0, 0, 0])
     = Returned (SUCCEED, scenario_A_by_position, Some [0, 0, 0])"
    by code_simp
  then show ?thesis
    by (simp add: members_def scenario_A_def scenario_A_by_position_def)
qed

lemma sort_state_after_value:
  assumes run: "H5T_sort_value nd dt map_arr = Returned (r, dt', map_arr')"
  shows "r = SUCCEED"
    and "case u dt' of Compnd c \<Rightarrow> compnd_sorted c = H5T_SORT_VALUE
         | Enumer e \<Rightarrow> enumer_sorted e = H5T_SORT_VALUE | Other_class \<Rightarrow> nd"
proof -
  have "r = SUCCEED \<and> (case u dt' of Compnd c \<Rightarrow> compnd_sorted c = H5T_SORT_VALUE
         | Enumer e \<Rightarrow> enumer_sorted e = H5T_SORT_VALUE | Other_class \<Rightarrow> nd)"
  proof (cases "case u dt of Compnd c \<Rightarrow> compnd_sorted c = H5T_SORT_VALUE
      | Enumer e \<Rightarrow> enumer_sorted e = H5T_SORT_VALUE | Other_class \<Rightarrow> nd")
    case True
    from H5T_sort_value_skip[OF True, of map_arr] run have "r = SUCCEED" "dt' = dt" by simp_all
    with True show ?thesis by simp
  next
    case False
    show ?thesis
    proof (cases "u dt")
      case Other_class
      from run False Other_class show ?thesis
        by (simp add: H5T_sort_value_def split: if_splits)
    next
      case (Compnd c)
      with False have "compnd_sorted c \<noteq> H5T_SORT_VALUE" by simp
      from H5T_sort_value_Compnd[OF Compnd this run] show ?thesis by auto
    next
      case (Enumer e)
      with False have "enumer_sorted e \<noteq> H5T_SORT_VALUE" by simp
      from H5T_sort_value_Enumer[OF Enumer this run] show ?thesis by auto
    qed
  qed
  then show "r = SUCCEED"
    and "case u dt' of Compnd c \<Rightarrow> compnd_sorted c = H5T_SORT_VALUE
         | Enumer e \<Rightarrow> enumer_sorted e = H5T_SORT_VALUE | Other_class \<Rightarrow> nd"
    by simp_all
qed

lemma sort_state_after_name:
  assumes run: "H5T_sort_name nd dt map_arr = Returned (r, dt', map_arr')"
  shows "r = SUCCEED"
    and "case u dt' of Compnd c \<Rightarrow> compnd_sorted c = H5T_SORT_NAME
         | Enumer e \<Rightarrow> enumer_sorted e = H5T_SORT_NAME | Other_class \<Rightarrow> nd"
proof -
  have "r = SUCCEED \<and> (case u dt' of Compnd c \<Rightarrow> compnd_sorted c = H5T_SORT_NAME
         | Enumer e \<Rightarrow> enumer_sorted e = H5T_SORT_NAME | Other_class \<Rightarrow> nd)"
  proof (cases "case u dt of Compnd c \<Rightarrow> compnd_sorted c = H5T_SORT_NAME
      | Enumer e \<Rightarrow> enumer_sorted e = H5T_SORT_NAME | Other_class \<Rightarrow> nd")
    case True
    from H5T_sort_name_skip[OF True, of map_arr] run have "r = SUCCEED" "dt' = dt" by simp_all
    with True show ?thesis by simp
  next
    case False
    show ?thesis
    proof (cases "u dt")
      case Other_class
      from run False Other_class show ?thesis
        by (simp add: H5T_sort_name_def split: if_splits)
    next
      case (Compnd c)
      with False have "compnd_sorted c \<noteq> H5T_SORT_NAME" by simp
      from H5T_sort_name_Compnd[OF Compnd this run] show ?thesis by auto
    next
      case (Enumer e)
      with False have "enumer_sorted e \<noteq> H5T_SORT_NAME" by simp
      from H5T_sort_name_Enumer[OF Enumer this run] show ?thesis by auto
    qed
  qed
  then show "r = SUCCEED"
    and "case u dt' of Compnd c \<Rightarrow> compnd_sorted c = H5T_SORT_NAME
         | Enumer e \<Rightarrow> enumer_sorted e = H5T_SORT_NAME | Other_class \<Rightarrow> nd"
    by simp_all
qed

text \<open>
  Claim C3. When the \<open>sortState\<close> of a descriptor is the requested order, \<^verbatim>\<open>H5T_sort_value\<close>
  (and \<^verbatim>\<open>H5T_sort_name\<close>) returns success with the descriptor and the caller's \<open>map\<close> as
  they were. So a second call of the same sort, after a first that returned, returns the
  descriptor of the first call unchanged, and leaves any \<open>map\<close> it is given unchanged: it
  does not reach the loops, and exchanges nothing.
\<close>

theorem sort_short_circuit:
  "(sort_state dt = Some H5T_SORT_VALUE \<longrightarrow>
      H5T_sort_value ndebug dt map_arr = Returned (SUCCEED, dt, map_arr))
   \<and> (sort_state dt = Some H5T_SORT_NAME \<longrightarrow>
      H5T_sort_name ndebug dt map_arr = Returned (SUCCEED, dt, map_arr))
   \<and> (H5T_sort_value ndebug dt map_arr = Returned (r, dt', map_arr') \<longrightarrow>
      H5T_sort_value ndebug dt' map_arr2 = Returned (SUCCEED, dt', map_arr2))
   \<and> (H5T_sort_name ndebug dt map_arr = Returned (r, dt', map_arr') \<longrightarrow>
      H5T_sort_name ndebug dt' map_arr2 = Returned (SUCCEED, dt', map_arr2))"
proof (intro conjI impI)
  assume "sort_state dt = Some H5T_SORT_VALUE"
  then have "case u dt of Compnd c \<Rightarrow> compnd_sorted c = H5T_SORT_VALUE
    | Enumer e \<Rightarrow> enumer_sorted e = H5T_SORT_VALUE | Other_class \<Rightarrow> ndebug"
    by (cases "u dt") (simp_all add: sort_state_def)
  then show "H5T_sort_value ndebug dt map_arr = Returned (SUCCEED, dt, map_arr)"
    by (rule H5T_sort_value_skip)
next
  assume "sort_state dt = Some H5T_SORT_NAME"
  then have "case u dt of Compnd c \<Rightarrow> compnd_sorted c = H5T_SORT_NAME
    | Enumer e \<Rightarrow> enumer_sorted e = H5T_SORT_NAME | Other_class \<Rightarrow> ndebug"
    by (cases "u dt") (simp_all add: sort_state_def)
  then show "H5T_sort_name ndebug dt map_arr = Returned (SUCCEED, dt, map_arr)"
    by (rule H5T_sort_name_skip)
next
  assume "H5T_sort_value ndebug dt map_arr = Returned (r, dt', map_arr')"
  then show "H5T_sort_value ndebug dt' map_arr2 = Returned (SUCCEED, dt', map_arr2)"
    by (intro H5T_sort_value_skip sort_state_after_value(2))
next
  assume "H5T_sort_name ndebug dt map_arr = Returned (r, dt', map_arr')"
  then show "H5T_sort_name ndebug dt' map_arr2 = Returned (SUCCEED, dt', map_arr2)"
    by (intro H5T_sort_name_skip sort_state_after_name(2))
qed

theorem sort_short_circuit_witness:
  "sort_state scenario_A_by_position = Some H5T_SORT_VALUE
   \<and> H5T_sort_value False scenario_A_by_position (Some [7, 8, 9])
        = Returned (SUCCEED, scenario_A_by_position, Some [7, 8, 9])
   \<and> sort_state scenario_B_le_by_name = Some H5T_SORT_NAME
   \<and> H5T_sort_name False scenario_B_le_by_name (Some [7, 8])
        = Returned (SUCCEED, scenario_B_le_by_name, Some [7, 8])
   \<and> H5T_sort_value False scenario_A (Some [0, 1, 2])
        = Returned (SUCCEED, scenario_A_by_position, Some [1, 2, 0])
   \<and> H5T_sort_value False scenario_A_by_position (Some [1, 2, 0])
        = Returned (SUCCEED, scenario_A_by_position, Some [1, 2, 0])
   \<and> H5T_sort_name False scenario_A (Some [0, 1, 2])
        = Returned (SUCCEED, scenario_A_by_name, Some [1, 0, 2])
   \<and> H5T_sort_name False scenario_A_by_name (Some [1, 0, 2])
        = Returned (SUCCEED, scenario_A_by_name, Some [1, 0, 2])"
proof -
  have a: "sort_state scenario_A_by_position = Some H5T_SORT_VALUE"
    by (simp add: sort_state_def scenario_A_by_position_def)
  have b: "sort_state scenario_B_le_by_name = Some H5T_SORT_NAME"
    by (simp add: sort_state_def scenario_B_le_by_name_def)
  have rv: "H5T_sort_value False scenario_A (Some [0, 1, 2])
        = Returned (SUCCEED, scenario_A_by_position, Some [1, 2, 0])"
    by code_simp
  have rn: "H5T_sort_name False scenario_A (Some [0, 1, 2])
        = Returned (SUCCEED, scenario_A_by_name, Some [1, 0, 2])"
    by code_simp
  note t1 = sort_short_circuit[of scenario_A_by_position False "Some [7, 8, 9]" SUCCEED
      scenario_A_by_position None None]
  note t2 = sort_short_circuit[of scenario_B_le_by_name False "Some [7, 8]" SUCCEED
      scenario_B_le_by_name None None]
  note t3 = sort_short_circuit[of scenario_A False "Some [0, 1, 2]" SUCCEED
      scenario_A_by_position "Some [1, 2, 0]" "Some [1, 2, 0]"]
  note t4 = sort_short_circuit[of scenario_A False "Some [0, 1, 2]" SUCCEED
      scenario_A_by_name "Some [1, 0, 2]" "Some [1, 0, 2]"]
  have 1: "H5T_sort_value False scenario_A_by_position (Some [7, 8, 9])
        = Returned (SUCCEED, scenario_A_by_position, Some [7, 8, 9])"
    using t1 a by blast
  have 2: "H5T_sort_name False scenario_B_le_by_name (Some [7, 8])
        = Returned (SUCCEED, scenario_B_le_by_name, Some [7, 8])"
    using t2 b by blast
  have 3: "H5T_sort_value False scenario_A_by_position (Some [1, 2, 0])
        = Returned (SUCCEED, scenario_A_by_position, Some [1, 2, 0])"
    using t3 rv by blast
  have 4: "H5T_sort_name False scenario_A_by_name (Some [1, 0, 2])
        = Returned (SUCCEED, scenario_A_by_name, Some [1, 0, 2])"
    using t4 rn by blast
  from a b rv rn 1 2 3 4 show ?thesis by blast
qed

text \<open>
  Claim C4, amended. The sorts report no error: a call that returns, returns success.
  That the descriptor is a record or an enumeration is a precondition the code asserts.
  On a descriptor of another class, a build with \<^verbatim>\<open>NDEBUG\<close> returns success and leaves
  the descriptor and the \<open>map\<close> unchanged; a build with assertions stops at the assertion.
\<close>

theorem sort_other_class:
  "(u dt = Other_class \<longrightarrow>
      H5T_sort_value True dt map_arr = Returned (SUCCEED, dt, map_arr) \<and>
      H5T_sort_name True dt map_arr = Returned (SUCCEED, dt, map_arr) \<and>
      H5T_sort_value False dt map_arr = Assert_failed \<and>
      H5T_sort_name False dt map_arr = Assert_failed)
   \<and> (H5T_sort_value ndebug dt map_arr = Returned (r, dt', map_arr') \<longrightarrow> r = SUCCEED)
   \<and> (H5T_sort_name ndebug dt map_arr = Returned (r, dt', map_arr') \<longrightarrow> r = SUCCEED)"
proof (intro conjI impI)
  assume k: "u dt = Other_class"
  show "H5T_sort_value True dt map_arr = Returned (SUCCEED, dt, map_arr)"
    and "H5T_sort_name True dt map_arr = Returned (SUCCEED, dt, map_arr)"
    and "H5T_sort_value False dt map_arr = Assert_failed"
    and "H5T_sort_name False dt map_arr = Assert_failed"
    using k by (simp_all add: H5T_sort_value_def H5T_sort_name_def)
next
  assume "H5T_sort_value ndebug dt map_arr = Returned (r, dt', map_arr')"
  then show "r = SUCCEED" by (rule sort_state_after_value(1))
next
  assume "H5T_sort_name ndebug dt map_arr = Returned (r, dt', map_arr')"
  then show "r = SUCCEED" by (rule sort_state_after_name(1))
qed

theorem sort_other_class_witness:
  "u integer_type = Other_class
   \<and> H5T_sort_value True integer_type (Some [5]) = Returned (SUCCEED, integer_type, Some [5])
   \<and> H5T_sort_name True integer_type (Some [5]) = Returned (SUCCEED, integer_type, Some [5])
   \<and> H5T_sort_value False integer_type (Some [5]) = Assert_failed
   \<and> H5T_sort_name False integer_type (Some [5]) = Assert_failed
   \<and> H5T_sort_value False scenario_A None = Returned (SUCCEED, scenario_A_by_position, None)
   \<and> H5T_sort_name False scenario_A None = Returned (SUCCEED, scenario_A_by_name, None)"
proof -
  have k: "u integer_type = Other_class" by (simp add: integer_type_def)
  have rv: "H5T_sort_value False scenario_A None
      = Returned (SUCCEED, scenario_A_by_position, None)" by code_simp
  have rn: "H5T_sort_name False scenario_A None
      = Returned (SUCCEED, scenario_A_by_name, None)" by code_simp
  show ?thesis
    using k rv rn sort_other_class[of integer_type "Some [5]" False SUCCEED integer_type "Some [5]"]
    by simp
qed

text \<open>
  The claim as stated fails on an integer type: neither sort returns a failure, where
  \<^verbatim>\<open>H5T_get_nmembers\<close> does report \<open>UnsupportedKind\<close>.
\<close>

theorem sort_other_class_counterexample:
  "H5T_sort_value True integer_type None = Returned (SUCCEED, integer_type, None)
   \<and> H5T_sort_name True integer_type None = Returned (SUCCEED, integer_type, None)
   \<and> H5T_sort_value False integer_type None = Assert_failed
   \<and> H5T_sort_name False integer_type None = Assert_failed
   \<and> SUCCEED \<noteq> FAIL
   \<and> H5T_get_nmembers integer_type = Inl UnsupportedKind"
  by (simp add: H5T_sort_value_def H5T_sort_name_def integer_type_def SUCCEED_def FAIL_def
      H5T_get_nmembers_def UnsupportedKind_def)

lemma HDmemcmp_unfold0:
  "HDmemcmp [] b n = 0" "HDmemcmp a [] n = 0" "HDmemcmp a b 0 = 0"
proof -
  show "HDmemcmp [] b n = 0" by (cases b; cases n) simp_all
  show "HDmemcmp a [] n = 0" by (cases a; cases n) simp_all
  show "HDmemcmp a b 0 = 0" by (cases a; cases b) simp_all
qed

lemma HDmemcmp_first_diff:
  "n \<le> length a \<Longrightarrow> n \<le> length b \<Longrightarrow>
   0 < HDmemcmp a b n \<longleftrightarrow> (\<exists>k<n. take k a = take k b \<and> b ! k < a ! k)"
proof (induction a b n rule: HDmemcmp.induct)
  case (1 x xs y ys n)
  then have ih: "x = y \<Longrightarrow> 0 < HDmemcmp xs ys n \<longleftrightarrow> (\<exists>k<n. take k xs = take k ys \<and> ys ! k < xs ! k)"
    by simp
  have d: "0 < uint x - uint y \<longleftrightarrow> y < x" by (simp add: word_less_def)
  show ?case
  proof (cases "x = y")
    case True
    with ih show ?thesis by (simp add: Ex_less_Suc2)
  next
    case False
    with d show ?thesis by (simp add: Ex_less_Suc2)
  qed
qed simp_all

lemma HDmemcmp_swap: "HDmemcmp a b n < 0 \<longleftrightarrow> 0 < HDmemcmp b a n"
proof (induction a b n rule: HDmemcmp.induct)
  case (1 x xs y ys n)
  then show ?case by (cases "x = y") auto
qed (simp_all add: HDmemcmp_unfold0)

text \<open>
  Claim C5. The comparison between two enumeration values in \<^verbatim>\<open>H5T_sort_value\<close> is
  \<^verbatim>\<open>HDmemcmp\<close> on the \<open>size\<close> bytes of each: it is positive (negative) exactly when, at the
  first position where the two byte sequences differ, the byte of the first is the
  greater (smaller) as an unsigned number, and zero when the \<open>size\<close> bytes are equal. After
  a sort by value that returns, no value compares greater than the next. Scenario B,
  \<open>[("RED", 2), ("GREEN", 1)]\<close> with 4-byte values in either byte order, sorts to
  \<open>[("GREEN", 1), ("RED", 2)]\<close>.
\<close>

theorem enum_value_comparison:
  "(n \<le> length a \<and> n \<le> length b \<longrightarrow>
      (0 < HDmemcmp a b n \<longleftrightarrow> (\<exists>k<n. take k a = take k b \<and> unat (b ! k) < unat (a ! k))) \<and>
      (HDmemcmp a b n < 0 \<longleftrightarrow> (\<exists>k<n. take k a = take k b \<and> unat (a ! k) < unat (b ! k))) \<and>
      (HDmemcmp a b n = 0 \<longleftrightarrow> take n a = take n b))
   \<and> (H5T_ok dt \<and> map_ok dt map_arr \<and> sort_state_ok dt \<and>
       H5T_sort_value ndebug dt map_arr = Returned (r, dt', map_arr') \<longrightarrow>
       (\<forall>e'. u dt' = Enumer e' \<longrightarrow>
          (\<forall>i. 0 \<le> i \<and> i + 1 < enumer_nmembs e' \<longrightarrow>
             HDmemcmp (drop (nat i * dt_size dt') (enumer_value e'))
                      (drop (nat (i + 1) * dt_size dt') (enumer_value e')) (dt_size dt') \<le> 0)))
   \<and> H5T_sort_value ndebug scenario_B_le None = Returned (SUCCEED, scenario_B_le_by_value, None)
   \<and> H5T_sort_value ndebug scenario_B_be None = Returned (SUCCEED, scenario_B_be_by_value, None)"
proof (intro conjI impI allI)
  assume l: "n \<le> length a \<and> n \<le> length b"
  then have la: "n \<le> length a" and lb: "n \<le> length b" by simp_all
  show "0 < HDmemcmp a b n \<longleftrightarrow> (\<exists>k<n. take k a = take k b \<and> unat (b ! k) < unat (a ! k))"
    using HDmemcmp_first_diff[OF la lb] by (simp add: word_less_nat_alt)
  have "HDmemcmp a b n < 0 \<longleftrightarrow> (\<exists>k<n. take k b = take k a \<and> a ! k < b ! k)"
    using HDmemcmp_first_diff[OF lb la] by (simp add: HDmemcmp_swap)
  also have "\<dots> \<longleftrightarrow> (\<exists>k<n. take k a = take k b \<and> unat (a ! k) < unat (b ! k))"
    by (auto simp: word_less_nat_alt)
  finally show "HDmemcmp a b n < 0 \<longleftrightarrow>
      (\<exists>k<n. take k a = take k b \<and> unat (a ! k) < unat (b ! k))" .
  show "HDmemcmp a b n = 0 \<longleftrightarrow> take n a = take n b"
    by (rule HDmemcmp_eq_0_iff[OF la lb])
next
  fix e' i
  assume h: "H5T_ok dt \<and> map_ok dt map_arr \<and> sort_state_ok dt \<and>
       H5T_sort_value ndebug dt map_arr = Returned (r, dt', map_arr')"
    and e': "u dt' = Enumer e'" and i: "0 \<le> i \<and> i + 1 < enumer_nmembs e'"
  from h have ok: "H5T_ok dt" and mo: "map_ok dt map_arr" and inv: "sort_state_ok dt"
    and run: "H5T_sort_value ndebug dt map_arr = Returned (r, dt', map_arr')" by simp_all
  let ?sz = "dt_size dt'"
  let ?n = "length (enumer_name e')"
  from H5T_sort_value_effect[OF ok mo run] have "H5T_ok dt'" by blast
  with e' have n: "enumer_nmembs e' = int ?n" and vl: "length (enumer_value e') = ?n * ?sz"
    by (simp_all add: H5T_ok_def)
  from H5T_sort_value_order[OF ok mo inv run] e'
  have s: "sorted (enum_values ?sz ?n (enumer_value e'))" by simp
  have sj: "Suc (nat i) < ?n" using i n by auto
  have "enum_values ?sz ?n (enumer_value e') ! nat i
      \<le> enum_values ?sz ?n (enumer_value e') ! Suc (nat i)"
    using sorted_nth_mono[OF s, of "nat i" "Suc (nat i)"] sj by simp
  then have "enum_value ?sz (enumer_value e') (nat i) \<le> enum_value ?sz (enumer_value e') (Suc (nat i))"
    using sj by (simp add: enum_values_def)
  then have "\<not> 0 < HDmemcmp (drop (nat i * ?sz) (enumer_value e'))
      (drop (Suc (nat i) * ?sz) (enumer_value e')) ?sz"
    unfolding HDmemcmp_enum_value(1)[OF vl sj] by simp
  moreover have "nat (i + 1) = Suc (nat i)" using i by auto
  ultimately show "HDmemcmp (drop (nat i * ?sz) (enumer_value e'))
      (drop (nat (i + 1) * ?sz) (enumer_value e')) ?sz \<le> 0"
    by simp
next
  show "H5T_sort_value ndebug scenario_B_le None
      = Returned (SUCCEED, scenario_B_le_by_value, None)"
  proof (cases ndebug)
    case True
    have "H5T_sort_value True scenario_B_le None
        = Returned (SUCCEED, scenario_B_le_by_value, None)" by code_simp
    with True show ?thesis by simp
  next
    case False
    have "H5T_sort_value False scenario_B_le None
        = Returned (SUCCEED, scenario_B_le_by_value, None)" by code_simp
    with False show ?thesis by simp
  qed
next
  show "H5T_sort_value ndebug scenario_B_be None
      = Returned (SUCCEED, scenario_B_be_by_value, None)"
  proof (cases ndebug)
    case True
    have "H5T_sort_value True scenario_B_be None
        = Returned (SUCCEED, scenario_B_be_by_value, None)" by code_simp
    with True show ?thesis by simp
  next
    case False
    have "H5T_sort_value False scenario_B_be None
        = Returned (SUCCEED, scenario_B_be_by_value, None)" by code_simp
    with False show ?thesis by simp
  qed
qed

theorem enum_value_comparison_witness:
  "4 \<le> length [2, 0, 0, 0 :: uint8_t] \<and> 4 \<le> length [1, 0, 0, 0 :: uint8_t]
   \<and> 0 < HDmemcmp [2, 0, 0, 0] [1, 0, 0, 0] 4
   \<and> HDmemcmp [0, 0, 0, 1] [0, 0, 0, 2] 4 < 0
   \<and> 0 < HDmemcmp [255, 0] [1, 0] 2
   \<and> HDmemcmp [7, 9, 1] [7, 9, 2] 2 = 0
   \<and> H5T_ok scenario_B_le \<and> map_ok scenario_B_le None \<and> sort_state_ok scenario_B_le
   \<and> H5T_sort_value False scenario_B_le None
        = Returned (SUCCEED, scenario_B_le_by_value, None)
   \<and> HDmemcmp [1, 0, 0, 0, 2, 0, 0, 0] [2, 0, 0, 0] 4 \<le> 0
   \<and> H5T_sort_value False scenario_B_be None
        = Returned (SUCCEED, scenario_B_be_by_value, None)"
proof -
  note t = enum_value_comparison[where ndebug = False and dt = scenario_B_le and map_arr = None
      and r = SUCCEED and dt' = scenario_B_le_by_value and map_arr' = None]
  have b: "H5T_ok scenario_B_le" "map_ok scenario_B_le None" "sort_state_ok scenario_B_le"
    by (simp_all add: H5T_ok_def map_ok_def sort_state_ok_def scenario_B_le_def)
  have 1: "0 < HDmemcmp [2, 0, 0, 0] [1, 0, 0, 0] 4"
  proof -
    have "\<exists>k<4. take k [2, 0, 0, 0 :: uint8_t] = take k [1, 0, 0, 0]
        \<and> unat ([1, 0, 0, 0 :: uint8_t] ! k) < unat ([2, 0, 0, 0 :: uint8_t] ! k)"
      by (intro exI[of _ 0]) simp
    then show ?thesis
      using t[where a = "[2, 0, 0, 0]" and b = "[1, 0, 0, 0]" and n = 4] by simp
  qed
  have 2: "HDmemcmp [0, 0, 0, 1] [0, 0, 0, 2] 4 < 0"
  proof -
    have "\<exists>k<4. take k [0, 0, 0, 1 :: uint8_t] = take k [0, 0, 0, 2]
        \<and> unat ([0, 0, 0, 1 :: uint8_t] ! k) < unat ([0, 0, 0, 2 :: uint8_t] ! k)"
      by (intro exI[of _ 3]) simp
    then show ?thesis
      using t[where a = "[0, 0, 0, 1]" and b = "[0, 0, 0, 2]" and n = 4] by simp
  qed
  have 3: "0 < HDmemcmp [255, 0] [1, 0] 2"
  proof -
    have "\<exists>k<2. take k [255, 0 :: uint8_t] = take k [1, 0]
        \<and> unat ([1, 0 :: uint8_t] ! k) < unat ([255, 0 :: uint8_t] ! k)"
      by (intro exI[of _ 0]) simp
    then show ?thesis
      using t[where a = "[255, 0]" and b = "[1, 0]" and n = 2] by simp
  qed
  have 4: "HDmemcmp [7, 9, 1] [7, 9, 2] 2 = 0"
    using t[where a = "[7, 9, 1]" and b = "[7, 9, 2]" and n = 2] by simp
  have r: "H5T_sort_value False scenario_B_le None
        = Returned (SUCCEED, scenario_B_le_by_value, None)"
    using t by blast
  have r': "H5T_sort_value False scenario_B_be None
        = Returned (SUCCEED, scenario_B_be_by_value, None)"
    using t by blast
  have ub: "u scenario_B_le_by_value
      = Enumer \<lparr>enumer_nmembs = 2, enumer_sorted = H5T_SORT_VALUE,
                enumer_value = [1, 0, 0, 0, 2, 0, 0, 0],
                enumer_name = [''GREEN'', ''RED'']\<rparr>"
    and sb: "dt_size scenario_B_le_by_value = 4"
    by (simp_all add: scenario_B_le_by_value_def)
  from t b r have "\<forall>e'. u scenario_B_le_by_value = Enumer e' \<longrightarrow>
          (\<forall>i. 0 \<le> i \<and> i + 1 < enumer_nmembs e' \<longrightarrow>
             HDmemcmp (drop (nat i * dt_size scenario_B_le_by_value) (enumer_value e'))
                      (drop (nat (i + 1) * dt_size scenario_B_le_by_value) (enumer_value e'))
                      (dt_size scenario_B_le_by_value) \<le> 0)"
    by blast
  then have 5: "HDmemcmp [1, 0, 0, 0, 2, 0, 0, 0] [2, 0, 0, 0] 4 \<le> 0"
    unfolding ub sb by (auto dest!: spec[of _ 0])
  from 1 2 3 4 5 b r r' show ?thesis by simp
qed







end
